theory Spec2Isabelle
  imports Main "HOL-Library.Sublist"
begin

section \<open>Python values, exceptions and the outside world\<close>

text \<open>
  The two scripts (\<^verbatim>\<open>setup_workspace.py\<close> and \<^verbatim>\<open>quick_auth_setup.py\<close>) are
  sequences of calls into the Google client libraries, the file system and the console.
  The model keeps every such call as an event of a trace, in program order, and takes
  the outcome of every call from an oracle that sees the trace so far: nothing is
  assumed about what the libraries or the remote service answer.
\<close>

text \<open>The scalar values that a CSV cell or a JSON field holds.\<close>

datatype pyval = VStr string | VBool bool | VNone

text \<open>A Python dict with string keys: a row of \<^verbatim>\<open>csv.DictReader\<close>, a JSON object.\<close>

type_synonym pydict = "string \<rightharpoonup> pyval"

text \<open>
  Exceptions. All of them derive from \<^verbatim>\<open>Exception\<close>, so \<^verbatim>\<open>except Exception\<close>
  catches each one. \<open>LibraryError\<close> stands for whatever a library call raises
  (\<^verbatim>\<open>HttpError\<close>, \<^verbatim>\<open>RefreshError\<close>, \<^verbatim>\<open>DefaultCredentialsError\<close>, ...).
\<close>

datatype exn =
    KeyError string
  | AttributeError string
  | FileNotFoundError string
  | LibraryError string

text \<open>
  A credential object, with the three attributes the code reads. As the library
  documents it, \<^verbatim>\<open>valid\<close> is derived: the credential has a token and is not expired.
\<close>

record creds =
  token :: "string option"
  expired :: bool
  refresh_token :: "string option"

definition valid :: "creds \<Rightarrow> bool" where
  "valid c = (token c \<noteq> None \<and> \<not> expired c)"

text \<open>The client that \<^verbatim>\<open>build('admin', 'directory_v1', credentials=c)\<close> returns.\<close>

datatype service = Service creds

text \<open>The requests of the Admin SDK Directory API that the scripts execute.\<close>

datatype api_call =
    GroupsInsert pyval pyval pyval
  | MembersInsert pyval string string
  | DomainsList
  | UsersList nat
  | GroupsList nat

fun read_only :: "api_call \<Rightarrow> bool" where
  "read_only (GroupsInsert e n d) = False"
| "read_only (MembersInsert k o' r) = False"
| "read_only DomainsList = True"
| "read_only (UsersList n) = True"
| "read_only (GroupsList n) = True"

text \<open>
  What a list request returns: the array under the resource's key, \<open>None\<close> when the
  response has no such key (the code reads it with \<^verbatim>\<open>.get(key, [])\<close>).
\<close>

type_synonym response = "pydict list option"

text \<open>The authentication methods of \<^verbatim>\<open>try_authentication\<close>.\<close>

datatype auth_method = ADC | ServiceAccount string | GcloudLogin

text \<open>The lines the scripts print, one constructor for each \<^verbatim>\<open>print\<close> of the source.\<close>

datatype line =
    CreatedGroup pyval
  | ErrorCreating pyval exn
  | Attempting
  | Trying auth_method
  | Working auth_method
  | AdcFailed exn
  | ServiceAccountFailed exn
  | GcloudFailed exn
  | Testing
  | FoundDomains nat
  | DomainLine pyval pyval
  | FoundUsers nat
  | FoundGroups nat
  | AccessTestFailed exn

datatype event =
    Call service api_call
  | Print line
  | PathExists string bool
  | FromAuthorizedUserFile string
  | Refresh creds
  | FromClientSecretsFile string
  | RunLocalServer
  | WriteFile string string
  | DefaultCredentials bool
  | Build creds
  | FromServiceAccountFile string
  | OsSystem

text \<open>
  The remote service: the outcome of executing a request with a client, given
  everything that happened before. \<open>Inl e\<close>: \<^verbatim>\<open>execute()\<close> raised \<open>e\<close>.
\<close>

type_synonym remote = "event list \<Rightarrow> service \<Rightarrow> api_call \<Rightarrow> exn + response"

section \<open>String helpers of Python\<close>

text \<open>\<^verbatim>\<open>s.split(sep)\<close> for a one-character separator: never empty, \<^verbatim>\<open>''.split(';') == ['']\<close>.\<close>

fun split_on :: "char \<Rightarrow> string \<Rightarrow> string list" where
  "split_on sep [] = [[]]"
| "split_on sep (c # cs) =
     (if c = sep then [] # split_on sep cs
      else (case split_on sep cs of
              [] \<Rightarrow> [[c]]
            | w # ws \<Rightarrow> (c # w) # ws))"

text \<open>
  A Python \<^verbatim>\<open>str\<close> is held as its UTF-8 bytes. The white space that \<^verbatim>\<open>str.strip()\<close>
  removes, each code point as its bytes: U+0009 to U+000D, U+001C to U+0020, U+0085,
  U+00A0, U+1680, U+2000 to U+200A, U+2028, U+2029, U+202F, U+205F and U+3000.
\<close>

definition space_codes :: "string list" where
  "space_codes =
     map (\<lambda>c. [c]) [CHR 0x09, CHR 0x0A, CHR 0x0B, CHR 0x0C, CHR 0x0D,
                    CHR 0x1C, CHR 0x1D, CHR 0x1E, CHR 0x1F, CHR 0x20]
     @ [[CHR 0xC2, CHR 0x85], [CHR 0xC2, CHR 0xA0], [CHR 0xE1, CHR 0x9A, CHR 0x80]]
     @ map (\<lambda>c. [CHR 0xE2, CHR 0x80, c])
         [CHR 0x80, CHR 0x81, CHR 0x82, CHR 0x83, CHR 0x84, CHR 0x85, CHR 0x86, CHR 0x87,
          CHR 0x88, CHR 0x89, CHR 0x8A, CHR 0xA8, CHR 0xA9, CHR 0xAF]
     @ [[CHR 0xE2, CHR 0x81, CHR 0x9F], [CHR 0xE3, CHR 0x80, CHR 0x80]]"

text \<open>The length of the white-space code the string begins with, 0 when it begins with none.\<close>

definition space_len :: "string list \<Rightarrow> string \<Rightarrow> nat" where
  "space_len codes s =
     (case find (\<lambda>w. w \<noteq> [] \<and> prefix w s) codes of None \<Rightarrow> 0 | Some w \<Rightarrow> length w)"

text \<open>Leading white space is dropped one code point at a time.\<close>

function lstrip_with :: "string list \<Rightarrow> string \<Rightarrow> string" where
  "lstrip_with codes s =
     (if space_len codes s = 0 then s else lstrip_with codes (drop (space_len codes s) s))"
  by pat_completeness auto
termination
proof (relation "measure (\<lambda>(codes, s). length s)")
  show "wf (measure (\<lambda>(codes, s). length s))" by simp
next
  fix codes s
  assume "space_len codes s \<noteq> 0"
  then have "0 < space_len codes s" by simp
  then have "s \<noteq> []"
    by (auto simp: space_len_def find_Some_iff split: option.splits)
  with \<open>0 < space_len codes s\<close>
  show "((codes, drop (space_len codes s) s), (codes, s)) \<in> measure (\<lambda>(codes, s). length s)"
    by simp
qed

declare lstrip_with.simps [simp del]

text \<open>\<^verbatim>\<open>s.strip()\<close>: white space is dropped at both ends; the end is the start of the reverse.\<close>

definition strip :: "string \<Rightarrow> string" where
  "strip s = rev (lstrip_with (map rev space_codes) (rev (lstrip_with space_codes s)))"

section \<open>setup\_workspace.py: create\_groups\<close>

type_synonym 'a outcome = "(exn + 'a) \<times> event list"

text \<open>Lines 59 to 67: one \<^verbatim>\<open>members().insert\<close> for each owner, until one raises.\<close>

fun add_owners :: "remote \<Rightarrow> service \<Rightarrow> pyval \<Rightarrow> string list \<Rightarrow> event list \<Rightarrow> unit outcome" where
  "add_owners rem svc key [] tr = (Inr (), tr)"
| "add_owners rem svc key (owner # owners) tr =
     (let c = MembersInsert key (strip owner) ''OWNER'' in
      case rem tr svc c of
        Inl e \<Rightarrow> (Inl e, tr @ [Call svc c])
      | Inr r \<Rightarrow> add_owners rem svc key owners (tr @ [Call svc c]))"

text \<open>
  Lines 54 to 67, the body of the \<^verbatim>\<open>try\<close>: the group insert, the success line, the
  lookup and split of \<^verbatim>\<open>row['Owners']\<close>, the member inserts. A missing key raises
  \<^verbatim>\<open>KeyError\<close>; a cell that is \<^verbatim>\<open>None\<close> (a short row, filled by \<^verbatim>\<open>DictReader\<close>) has no
  \<^verbatim>\<open>split\<close> and raises \<^verbatim>\<open>AttributeError\<close>.
\<close>

definition try_body :: "remote \<Rightarrow> service \<Rightarrow> pydict \<Rightarrow> pyval \<Rightarrow> pyval \<Rightarrow> pyval \<Rightarrow> event list \<Rightarrow> unit outcome" where
  "try_body rem svc row email name description tr =
     (let c = GroupsInsert email name description; tr1 = tr @ [Call svc c] in
      case rem tr svc c of
        Inl e \<Rightarrow> (Inl e, tr1)
      | Inr result \<Rightarrow>
          (let tr2 = tr1 @ [Print (CreatedGroup email)] in
           case row ''Owners'' of
             None \<Rightarrow> (Inl (KeyError ''Owners''), tr2)
           | Some (VStr s) \<Rightarrow> add_owners rem svc email (split_on CHR '';'' s) tr2
           | Some v \<Rightarrow> (Inl (AttributeError ''split''), tr2)))"

text \<open>
  Lines 47 to 70, one iteration of the loop. The three lookups that build
  \<^verbatim>\<open>group_body\<close> stand before the \<^verbatim>\<open>try\<close>: their \<^verbatim>\<open>KeyError\<close> leaves the function.
  Whatever the body of the \<^verbatim>\<open>try\<close> raises is printed and the iteration ends normally.
\<close>

definition process_row :: "remote \<Rightarrow> service \<Rightarrow> pydict \<Rightarrow> event list \<Rightarrow> unit outcome" where
  "process_row rem svc row tr =
     (case row ''Group Email'' of
        None \<Rightarrow> (Inl (KeyError ''Group Email''), tr)
      | Some email \<Rightarrow>
     (case row ''Group Name'' of
        None \<Rightarrow> (Inl (KeyError ''Group Name''), tr)
      | Some name \<Rightarrow>
     (case row ''Description'' of
        None \<Rightarrow> (Inl (KeyError ''Description''), tr)
      | Some description \<Rightarrow>
     (case try_body rem svc row email name description tr of
        (Inl e, tr') \<Rightarrow> (Inr (), tr' @ [Print (ErrorCreating email e)])
      | (Inr u, tr') \<Rightarrow> (Inr (), tr')))))"

text \<open>Line 46, the \<^verbatim>\<open>for\<close> loop over the rows of the reader.\<close>

fun process_rows :: "remote \<Rightarrow> service \<Rightarrow> pydict list \<Rightarrow> event list \<Rightarrow> unit outcome" where
  "process_rows rem svc [] tr = (Inr (), tr)"
| "process_rows rem svc (row # rows) tr =
     (case process_row rem svc row tr of
        (Inl e, tr') \<Rightarrow> (Inl e, tr')
      | (Inr u, tr') \<Rightarrow> process_rows rem svc rows tr')"

text \<open>
  Lines 41 to 70. The argument \<open>csv\<close> is what \<^verbatim>\<open>groups/entity_groups.csv\<close> holds, as the
  rows \<^verbatim>\<open>csv.DictReader\<close> yields; \<open>None\<close> when the file cannot be opened.
\<close>

definition create_groups :: "remote \<Rightarrow> service \<Rightarrow> pydict list option \<Rightarrow> unit outcome" where
  "create_groups rem svc csv =
     (case csv of
        None \<Rightarrow> (Inl (FileNotFoundError ''groups/entity_groups.csv''), [])
      | Some rows \<Rightarrow> process_rows rem svc rows [])"

section \<open>setup\_workspace.py: authenticate\<close>

text \<open>
  What \<^verbatim>\<open>authenticate\<close> meets outside the program: the files of the working
  directory, and the answers of the library calls. \<open>from_authorized_user_file\<close> and
  \<open>from_client_secrets_file\<close> read the content of the file they are given;
  \<open>refresh\<close> returns the credential as the call leaves it; \<open>open_for_writing\<close> tells
  whether \<^verbatim>\<open>open(path, 'w')\<close> raises.
\<close>

record auth_env =
  files :: "string \<rightharpoonup> string"
  from_authorized_user_file :: "string \<Rightarrow> exn + creds"
  refresh :: "creds \<Rightarrow> exn + creds"
  from_client_secrets_file :: "string \<Rightarrow> exn option"
  run_local_server :: "exn + creds"
  to_json :: "creds \<Rightarrow> string"
  open_for_writing :: "string \<Rightarrow> exn option"

text \<open>Truth value of an optional string: \<^verbatim>\<open>None\<close> and \<^verbatim>\<open>''\<close> are false.\<close>

definition truthy :: "string option \<Rightarrow> bool" where
  "truthy t = (case t of None \<Rightarrow> False | Some s \<Rightarrow> s \<noteq> [])"

text \<open>Lines 23 to 26: \<^verbatim>\<open>creds = None\<close>, replaced by the cached credential when the file exists.\<close>

definition load_cached :: "auth_env \<Rightarrow> creds option outcome" where
  "load_cached env =
     (case files env ''token.json'' of
        None \<Rightarrow> (Inr None, [PathExists ''token.json'' False])
      | Some content \<Rightarrow>
          (let tr = [PathExists ''token.json'' True, FromAuthorizedUserFile ''token.json''] in
           case from_authorized_user_file env content of
             Inl e \<Rightarrow> (Inl e, tr)
           | Inr c \<Rightarrow> (Inr (Some c), tr)))"

text \<open>Lines 32 to 34: the installed-app flow, which opens the consent page.\<close>

definition interactive_login :: "auth_env \<Rightarrow> event list \<Rightarrow> creds outcome" where
  "interactive_login env tr =
     (let tr1 = tr @ [FromClientSecretsFile ''credentials.json''] in
      case files env ''credentials.json'' of
        None \<Rightarrow> (Inl (FileNotFoundError ''credentials.json''), tr1)
      | Some content \<Rightarrow>
          (case from_client_secrets_file env content of
             Some e \<Rightarrow> (Inl e, tr1)
           | None \<Rightarrow> (run_local_server env, tr1 @ [RunLocalServer])))"

text \<open>Lines 29 to 34: refresh the cached credential, or else log in interactively.\<close>

definition obtain_creds :: "auth_env \<Rightarrow> creds option \<Rightarrow> event list \<Rightarrow> creds outcome" where
  "obtain_creds env cached tr =
     (case cached of
        None \<Rightarrow> interactive_login env tr
      | Some c \<Rightarrow>
          if expired c \<and> truthy (refresh_token c)
          then (refresh env c, tr @ [Refresh c])
          else interactive_login env tr)"

text \<open>Lines 36 and 37: the credential is written to \<^verbatim>\<open>token.json\<close>.\<close>

definition save_token :: "auth_env \<Rightarrow> creds \<Rightarrow> event list \<Rightarrow> (exn + creds) \<times> (string \<rightharpoonup> string) \<times> event list" where
  "save_token env c tr =
     (let tr1 = tr @ [WriteFile ''token.json'' (to_json env c)] in
      case open_for_writing env ''token.json'' of
        Some e \<Rightarrow> (Inl e, files env, tr1)
      | None \<Rightarrow> (Inr c, (files env)(''token.json'' \<mapsto> to_json env c), tr1))"

text \<open>Lines 29 to 37, the body of the outer \<^verbatim>\<open>if\<close>: obtain a credential, then save it.\<close>

definition renew :: "auth_env \<Rightarrow> creds option \<Rightarrow> event list \<Rightarrow> (exn + creds) \<times> (string \<rightharpoonup> string) \<times> event list" where
  "renew env cached tr =
     (case obtain_creds env cached tr of
        (Inl e, tr') \<Rightarrow> (Inl e, files env, tr')
      | (Inr c, tr') \<Rightarrow> save_token env c tr')"

text \<open>
  Lines 21 to 39. The result is the returned credential or the exception that leaves
  the function (nothing is caught here), the files afterwards, and the trace. The test
  \<^verbatim>\<open>not creds or not creds.valid\<close> of line 28 is the case distinction on \<open>cached\<close>.
\<close>

definition authenticate :: "auth_env \<Rightarrow> (exn + creds) \<times> (string \<rightharpoonup> string) \<times> event list" where
  "authenticate env =
     (case load_cached env of
        (Inl e, tr) \<Rightarrow> (Inl e, files env, tr)
      | (Inr cached, tr) \<Rightarrow>
          (case cached of
             None \<Rightarrow> renew env cached tr
           | Some c \<Rightarrow> if \<not> valid c then renew env cached tr else (Inr c, files env, tr)))"

section \<open>quick\_auth\_setup.py: try\_authentication\<close>

text \<open>
  The outside of \<^verbatim>\<open>try_authentication\<close>. Every answer may depend on what happened
  before: Application Default Credentials differ before and after the gcloud login.
  The flag of \<open>default_credentials\<close> tells whether scopes were passed (line 22) or not
  (line 71). \<open>user_home\<close> is what \<^verbatim>\<open>expanduser\<close> puts in place of the tilde.
\<close>

record quick_env =
  user_home :: string
  default_credentials :: "event list \<Rightarrow> bool \<Rightarrow> exn + creds"
  build :: "event list \<Rightarrow> creds \<Rightarrow> exn option"
  execute :: remote
  path_exists :: "event list \<Rightarrow> string \<Rightarrow> bool"
  from_service_account_file :: "event list \<Rightarrow> string \<Rightarrow> exn + creds"

text \<open>
  The two statements every one of the three attempts ends with: build the client, then
  probe it with \<^verbatim>\<open>domains().list\<close> (lines 28 and 31, 58 and 59, 72 and 73).
\<close>

definition build_and_probe :: "quick_env \<Rightarrow> creds \<Rightarrow> event list \<Rightarrow> service outcome" where
  "build_and_probe env c tr =
     (let tr1 = tr @ [Build c] in
      case build env tr c of
        Some e \<Rightarrow> (Inl e, tr1)
      | None \<Rightarrow>
          (let svc = Service c; tr2 = tr1 @ [Call svc DomainsList] in
           case execute env tr1 svc DomainsList of
             Inl e \<Rightarrow> (Inl e, tr2)
           | Inr result \<Rightarrow> (Inr svc, tr2)))"

text \<open>
  An attempt returns \<open>Some (credentials, service)\<close> when the function returns from
  inside it, and \<open>None\<close> when its \<^verbatim>\<open>except\<close> clause has printed the failure and the
  function goes on.
\<close>

type_synonym attempt = "(creds \<times> service) option \<times> event list"

text \<open>Lines 20 to 36, method 1.\<close>

definition try_adc :: "quick_env \<Rightarrow> event list \<Rightarrow> attempt" where
  "try_adc env tr =
     (let tr1 = tr @ [Print (Trying ADC)]; tr2 = tr1 @ [DefaultCredentials True] in
      case (case default_credentials env tr1 True of
              Inl e \<Rightarrow> (Inl e, tr2)
            | Inr c \<Rightarrow>
                (case build_and_probe env c tr2 of
                   (Inl e, tr3) \<Rightarrow> (Inl e, tr3)
                 | (Inr svc, tr3) \<Rightarrow> (Inr (c, svc), tr3 @ [Print (Working ADC)]))) of
        (Inl e, tr') \<Rightarrow> (None, tr' @ [Print (AdcFailed e)])
      | (Inr cs, tr') \<Rightarrow> (Some cs, tr'))"

text \<open>Lines 47 to 64, the \<^verbatim>\<open>try\<close> of method 2 for one path that exists.\<close>

definition try_service_account :: "quick_env \<Rightarrow> string \<Rightarrow> event list \<Rightarrow> attempt" where
  "try_service_account env path tr =
     (let tr1 = tr @ [Print (Trying (ServiceAccount path))]; tr2 = tr1 @ [FromServiceAccountFile path] in
      case (case from_service_account_file env tr1 path of
              Inl e \<Rightarrow> (Inl e, tr2)
            | Inr c \<Rightarrow>
                (case build_and_probe env c tr2 of
                   (Inl e, tr3) \<Rightarrow> (Inl e, tr3)
                 | (Inr svc, tr3) \<Rightarrow> (Inr (c, svc), tr3 @ [Print (Working (ServiceAccount path))]))) of
        (Inl e, tr') \<Rightarrow> (None, tr' @ [Print (ServiceAccountFailed e)])
      | (Inr cs, tr') \<Rightarrow> (Some cs, tr'))"

text \<open>Lines 39 to 43.\<close>

definition service_account_paths :: "quick_env \<Rightarrow> string list" where
  "service_account_paths env =
     [''service-account.json'', ''credentials.json'',
      user_home env @ ''/.config/gcloud/service-account.json'']"

text \<open>Lines 45 to 64, the loop over the paths.\<close>

fun try_service_accounts :: "quick_env \<Rightarrow> string list \<Rightarrow> event list \<Rightarrow> attempt" where
  "try_service_accounts env [] tr = (None, tr)"
| "try_service_accounts env (path # paths) tr =
     (let found = path_exists env tr path; tr1 = tr @ [PathExists path found] in
      if found
      then (case try_service_account env path tr1 of
              (Some cs, tr') \<Rightarrow> (Some cs, tr')
            | (None, tr') \<Rightarrow> try_service_accounts env paths tr')
      else try_service_accounts env paths tr1)"

text \<open>Lines 67 to 78, method 3. The status that \<^verbatim>\<open>os.system\<close> returns is not read.\<close>

definition try_gcloud :: "quick_env \<Rightarrow> event list \<Rightarrow> attempt" where
  "try_gcloud env tr =
     (let tr1 = tr @ [Print (Trying GcloudLogin), OsSystem]; tr2 = tr1 @ [DefaultCredentials False] in
      case (case default_credentials env tr1 False of
              Inl e \<Rightarrow> (Inl e, tr2)
            | Inr c \<Rightarrow>
                (case build_and_probe env c tr2 of
                   (Inl e, tr3) \<Rightarrow> (Inl e, tr3)
                 | (Inr svc, tr3) \<Rightarrow> (Inr (c, svc), tr3 @ [Print (Working GcloudLogin)]))) of
        (Inl e, tr') \<Rightarrow> (None, tr' @ [Print (GcloudFailed e)])
      | (Inr cs, tr') \<Rightarrow> (Some cs, tr'))"

text \<open>Lines 14 to 80. \<open>None\<close> is the pair \<^verbatim>\<open>(None, None)\<close> of line 80.\<close>

definition try_authentication :: "quick_env \<Rightarrow> attempt" where
  "try_authentication env =
     (case try_adc env [Print Attempting] of
        (Some cs, tr) \<Rightarrow> (Some cs, tr)
      | (None, tr1) \<Rightarrow>
          (case try_service_accounts env (service_account_paths env) tr1 of
             (Some cs, tr) \<Rightarrow> (Some cs, tr)
           | (None, tr2) \<Rightarrow>
               (case try_gcloud env tr2 of
                  (Some cs, tr) \<Rightarrow> (Some cs, tr)
                | (None, tr3) \<Rightarrow> (None, tr3))))"

section \<open>The fallback chain as the spec describes it\<close>

text \<open>
  The spec (4.1 and 9) describes \<^verbatim>\<open>try_authentication\<close> as an ordered list of
  provider attempts, evaluated until one returns a usable credential: each attempt is
  tried on its own, on an exception the error is printed and the next method is
  attempted, no attempt is retried, and when all fail the caller gets \<^verbatim>\<open>None\<close>.
  The definitions of this section follow these words, one definition for all methods;
  the functions of the section before follow the three blocks and the loop of the
  source. An attempt announces the method, asks for its credential, builds the client
  and probes it with \<^verbatim>\<open>domains().list\<close>, each step once; the first step that raises
  ends the attempt with the failure line of the method.
\<close>

text \<open>
  The events from the announcing line to the credential request of a method; the
  request is the last of them, and its answer is taken at the events before it.
\<close>

definition credential_events :: "auth_method \<Rightarrow> event list" where
  "credential_events m =
     (case m of
        ADC \<Rightarrow> [Print (Trying ADC), DefaultCredentials True]
      | ServiceAccount path \<Rightarrow> [Print (Trying (ServiceAccount path)), FromServiceAccountFile path]
      | GcloudLogin \<Rightarrow> [Print (Trying GcloudLogin), OsSystem, DefaultCredentials False])"

definition credential_answer :: "quick_env \<Rightarrow> event list \<Rightarrow> auth_method \<Rightarrow> exn + creds" where
  "credential_answer env h m =
     (case m of
        ADC \<Rightarrow> default_credentials env h True
      | ServiceAccount path \<Rightarrow> from_service_account_file env h path
      | GcloudLogin \<Rightarrow> default_credentials env h False)"

text \<open>The line that reports the failure of a method.\<close>

definition failure_line :: "auth_method \<Rightarrow> exn \<Rightarrow> line" where
  "failure_line m e =
     (case m of
        ADC \<Rightarrow> AdcFailed e
      | ServiceAccount path \<Rightarrow> ServiceAccountFailed e
      | GcloudLogin \<Rightarrow> GcloudFailed e)"

text \<open>One attempt: the credential, the client, the probe; the first exception ends it.\<close>

definition spec_credential_attempt :: "quick_env \<Rightarrow> event list \<Rightarrow> auth_method \<Rightarrow> (creds \<times> service) option \<times> event list" where
  "spec_credential_attempt env h m =
     (let evs = credential_events m in
      case credential_answer env (h @ butlast evs) m of
        Inl e \<Rightarrow> (None, evs @ [Print (failure_line m e)])
      | Inr c \<Rightarrow>
          (case build env (h @ evs) c of
             Some e \<Rightarrow> (None, evs @ [Build c, Print (failure_line m e)])
           | None \<Rightarrow>
               (case execute env (h @ evs @ [Build c]) (Service c) DomainsList of
                  Inl e \<Rightarrow> (None, evs @ [Build c, Call (Service c) DomainsList, Print (failure_line m e)])
                | Inr r \<Rightarrow> (Some (c, Service c),
                            evs @ [Build c, Call (Service c) DomainsList, Print (Working m)]))))"

text \<open>A service-account path is attempted when its file exists, and fails at once when not.\<close>

definition spec_attempt :: "quick_env \<Rightarrow> event list \<Rightarrow> auth_method \<Rightarrow> (creds \<times> service) option \<times> event list" where
  "spec_attempt env h m =
     (case m of
        ServiceAccount path \<Rightarrow>
          if path_exists env h path
          then (case spec_credential_attempt env (h @ [PathExists path True]) m of
                  (res, evs) \<Rightarrow> (res, PathExists path True # evs))
          else (None, [PathExists path False])
      | _ \<Rightarrow> spec_credential_attempt env h m)"

text \<open>The methods in order, until the first attempt that returns a pair.\<close>

fun spec_fallback_chain :: "quick_env \<Rightarrow> auth_method list \<Rightarrow> event list \<Rightarrow> attempt" where
  "spec_fallback_chain env [] h = (None, h)"
| "spec_fallback_chain env (m # ms) h =
     (case spec_attempt env h m of
        (Some cs, evs) \<Rightarrow> (Some cs, h @ evs)
      | (None, evs) \<Rightarrow> spec_fallback_chain env ms (h @ evs))"

section \<open>quick\_auth\_setup.py: test\_workspace\_access\<close>

text \<open>\<^verbatim>\<open>response.get(key, [])\<close>.\<close>

definition entries :: "response \<Rightarrow> pydict list" where
  "entries r = (case r of None \<Rightarrow> [] | Some xs \<Rightarrow> xs)"

text \<open>Lines 90 and 91: one line for each domain; a domain without one of the two keys raises.\<close>

fun print_domains :: "pydict list \<Rightarrow> event list \<Rightarrow> unit outcome" where
  "print_domains [] tr = (Inr (), tr)"
| "print_domains (domain # domains) tr =
     (case domain ''domainName'' of
        None \<Rightarrow> (Inl (KeyError ''domainName''), tr)
      | Some name \<Rightarrow>
          (case domain ''verified'' of
             None \<Rightarrow> (Inl (KeyError ''verified''), tr)
           | Some verified \<Rightarrow> print_domains domains (tr @ [Print (DomainLine name verified)])))"

text \<open>Lines 87 to 101, the body of the \<^verbatim>\<open>try\<close>.\<close>

definition access_body :: "remote \<Rightarrow> service \<Rightarrow> event list \<Rightarrow> unit outcome" where
  "access_body rem svc tr =
     (let tr1 = tr @ [Call svc DomainsList] in
      case rem tr svc DomainsList of
        Inl e \<Rightarrow> (Inl e, tr1)
      | Inr domains \<Rightarrow>
     (case print_domains (entries domains) (tr1 @ [Print (FoundDomains (length (entries domains)))]) of
        (Inl e, tr2) \<Rightarrow> (Inl e, tr2)
      | (Inr u, tr2) \<Rightarrow>
     (let tr3 = tr2 @ [Call svc (UsersList 10)] in
      case rem tr2 svc (UsersList 10) of
        Inl e \<Rightarrow> (Inl e, tr3)
      | Inr users \<Rightarrow>
     (let tr4 = tr3 @ [Print (FoundUsers (length (entries users)))];
          tr5 = tr4 @ [Call svc (GroupsList 10)] in
      case rem tr4 svc (GroupsList 10) of
        Inl e \<Rightarrow> (Inl e, tr5)
      | Inr groups \<Rightarrow> (Inr (), tr5 @ [Print (FoundGroups (length (entries groups)))])))))"

text \<open>Lines 82 to 105: every exception of the body is printed and turned into \<^verbatim>\<open>False\<close>.\<close>

definition test_workspace_access :: "remote \<Rightarrow> service \<Rightarrow> bool \<times> event list" where
  "test_workspace_access rem svc =
     (case access_body rem svc [Print Testing] of
        (Inl e, tr) \<Rightarrow> (False, tr @ [Print (AccessTestFailed e)])
      | (Inr u, tr) \<Rightarrow> (True, tr))"

section \<open>Reading traces\<close>

text \<open>Functions and predicates over traces and rows, in which the properties are stated.\<close>

text \<open>The member inserts of a row, one for each owner, as lines 60 to 67 build them.\<close>

definition member_events :: "service \<Rightarrow> pyval \<Rightarrow> string list \<Rightarrow> event list" where
  "member_events svc key owners = map (\<lambda>owner. Call svc (MembersInsert key (strip owner) ''OWNER'')) owners"

fun is_group_insert :: "event \<Rightarrow> bool" where
  "is_group_insert (Call s (GroupsInsert e n d)) = True"
| "is_group_insert ev = False"

fun is_member_insert :: "event \<Rightarrow> bool" where
  "is_member_insert (Call s (MembersInsert k o' r)) = True"
| "is_member_insert ev = False"

text \<open>The cell of a row under a column, \<^verbatim>\<open>None\<close> when the row has no such key.\<close>

definition cell :: "pydict \<Rightarrow> string \<Rightarrow> pyval" where
  "cell row k = (case row k of None \<Rightarrow> VNone | Some v \<Rightarrow> v)"

text \<open>The group insert of a row, and the owners its \<^verbatim>\<open>Owners\<close> cell lists.\<close>

definition group_call :: "pydict \<Rightarrow> api_call" where
  "group_call row = GroupsInsert (cell row ''Group Email'') (cell row ''Group Name'') (cell row ''Description'')"

definition owners_of :: "pydict \<Rightarrow> string list" where
  "owners_of row = (case row ''Owners'' of Some (VStr s) \<Rightarrow> split_on CHR '';'' s | _ \<Rightarrow> [])"

text \<open>
  A row has the three columns that \<^verbatim>\<open>group_body\<close> reads; a row is well formed when
  each of the four columns is there and holds a string.
\<close>

definition has_columns :: "pydict \<Rightarrow> bool" where
  "has_columns row = (row ''Group Email'' \<noteq> None \<and> row ''Group Name'' \<noteq> None \<and> row ''Description'' \<noteq> None)"

definition well_formed :: "pydict \<Rightarrow> bool" where
  "well_formed row =
     list_all (\<lambda>k. case row k of Some (VStr s) \<Rightarrow> True | _ \<Rightarrow> False)
       [''Group Email'', ''Group Name'', ''Description'', ''Owners'']"

fun is_call :: "event \<Rightarrow> bool" where
  "is_call (Call s c) = True"
| "is_call ev = False"

definition group_inserts :: "event list \<Rightarrow> event list" where
  "group_inserts tr = filter is_group_insert tr"

definition member_inserts :: "event list \<Rightarrow> event list" where
  "member_inserts tr = filter is_member_insert tr"

definition total_owners :: "pydict list \<Rightarrow> nat" where
  "total_owners rows = sum_list (map (\<lambda>row. length (owners_of row)) rows)"

text \<open>
  Replaying a trace against the service: each request of the trace with the answer the
  service gave to it, given the events before it.
\<close>

fun outcomes :: "remote \<Rightarrow> event list \<Rightarrow> event list \<Rightarrow> (api_call \<times> (exn + response)) list" where
  "outcomes rem h [] = []"
| "outcomes rem h (Call s c # tr) = (c, rem h s c) # outcomes rem (h @ [Call s c]) tr"
| "outcomes rem h (ev # tr) = outcomes rem (h @ [ev]) tr"

text \<open>An answered request: its \<^verbatim>\<open>execute()\<close> returned.\<close>

fun answered :: "api_call \<times> (exn + response) \<Rightarrow> bool" where
  "answered (c, Inr r) = True"
| "answered (c, Inl e) = False"

text \<open>
  What a row's stretch of the trace has to look like, given the events \<open>h\<close> before it:
  exactly one group insert, the row's; member inserts that are an initial part of the
  row's owners, one insert each and in order; and all of the row's owners when every
  request of the stretch was answered. \<open>rows_served\<close> asks this of the stretches of
  the rows one after the other.
\<close>

definition row_served :: "remote \<Rightarrow> service \<Rightarrow> event list \<Rightarrow> pydict \<Rightarrow> event list \<Rightarrow> bool" where
  "row_served rem svc h row seg =
     (group_inserts seg = [Call svc (group_call row)]
      \<and> prefix (member_inserts seg) (member_events svc (cell row ''Group Email'') (owners_of row))
      \<and> (list_all answered (outcomes rem h seg) \<longrightarrow>
            member_inserts seg = member_events svc (cell row ''Group Email'') (owners_of row)))"

fun rows_served :: "remote \<Rightarrow> service \<Rightarrow> event list \<Rightarrow> pydict list \<Rightarrow> event list list \<Rightarrow> bool" where
  "rows_served rem svc h [] [] = True"
| "rows_served rem svc h (row # rows) (seg # segs) =
     (row_served rem svc h row seg \<and> rows_served rem svc (h @ seg) rows segs)"
| "rows_served rem svc h rows segs = False"


text \<open>Events of \<^verbatim>\<open>authenticate\<close>: a write to a file, a step of the interactive flow.\<close>

fun is_write :: "event \<Rightarrow> bool" where
  "is_write (WriteFile p content) = True"
| "is_write ev = False"

fun is_interactive :: "event \<Rightarrow> bool" where
  "is_interactive RunLocalServer = True"
| "is_interactive (FromClientSecretsFile p) = True"
| "is_interactive ev = False"

text \<open>The three components of what \<^verbatim>\<open>authenticate\<close> leaves behind.\<close>

definition result_of :: "'a \<times> 'b \<times> 'c \<Rightarrow> 'a" where
  "result_of r = fst r"

definition files_of :: "'a \<times> 'b \<times> 'c \<Rightarrow> 'b" where
  "files_of r = fst (snd r)"

definition trace_of :: "'a \<times> 'b \<times> 'c \<Rightarrow> 'c" where
  "trace_of r = snd (snd r)"

text \<open>
  The event that starts an authentication method: the announcing line of method 1 and
  of method 3, and for a service-account path the test whether its file exists (line
  46), which comes before the announcing line of line 48. \<open>started\<close> lists the
  methods a trace starts, in order.
\<close>

fun start_of :: "event \<Rightarrow> auth_method option" where
  "start_of (Print (Trying ADC)) = Some ADC"
| "start_of (Print (Trying GcloudLogin)) = Some GcloudLogin"
| "start_of (PathExists path found) = Some (ServiceAccount path)"
| "start_of ev = None"

fun started :: "event list \<Rightarrow> auth_method list" where
  "started [] = []"
| "started (ev # tr) = (case start_of ev of None \<Rightarrow> started tr | Some m \<Rightarrow> m # started tr)"

text \<open>The success line of a method, printed right before the function returns from it.\<close>

fun is_working :: "event \<Rightarrow> bool" where
  "is_working (Print (Working m)) = True"
| "is_working ev = False"

text \<open>
  The credential requests of a trace, each under its method; the methods that had
  something to try (methods 1 and 3 once announced, a service-account path once its
  file is found); the builds of a client.
\<close>

fun request_of :: "event \<Rightarrow> auth_method option" where
  "request_of (DefaultCredentials True) = Some ADC"
| "request_of (DefaultCredentials False) = Some GcloudLogin"
| "request_of (FromServiceAccountFile path) = Some (ServiceAccount path)"
| "request_of ev = None"

fun requested :: "event list \<Rightarrow> auth_method list" where
  "requested [] = []"
| "requested (ev # tr) = (case request_of ev of None \<Rightarrow> requested tr | Some m \<Rightarrow> m # requested tr)"

fun ready_of :: "event \<Rightarrow> auth_method option" where
  "ready_of (Print (Trying ADC)) = Some ADC"
| "ready_of (Print (Trying GcloudLogin)) = Some GcloudLogin"
| "ready_of (PathExists path True) = Some (ServiceAccount path)"
| "ready_of ev = None"

fun ready :: "event list \<Rightarrow> auth_method list" where
  "ready [] = []"
| "ready (ev # tr) = (case ready_of ev of None \<Rightarrow> ready tr | Some m \<Rightarrow> m # ready tr)"

fun is_build :: "event \<Rightarrow> bool" where
  "is_build (Build c) = True"
| "is_build ev = False"

text \<open>The order of the methods as the source lists them.\<close>

definition documented_order :: "quick_env \<Rightarrow> auth_method list" where
  "documented_order env = ADC # map ServiceAccount (service_account_paths env) @ [GcloudLogin]"

text \<open>
  What a stretch of the run that goes through the methods \<open>ms\<close> looks like: either
  every method was started and none succeeded, or the stretch ends with the success
  line of the method started last and holds no other success line.
\<close>

definition first_success :: "auth_method list \<Rightarrow> (creds \<times> service) option \<Rightarrow> event list \<Rightarrow> bool" where
  "first_success ms res new =
     (case res of
        None \<Rightarrow> started new = ms \<and> \<not> list_ex is_working new
      | Some cs \<Rightarrow> started new \<noteq> [] \<and> prefix (started new) ms \<and> new \<noteq> []
                   \<and> last new = Print (Working (last (started new)))
                   \<and> \<not> list_ex is_working (butlast new))"

text \<open>A returned pair comes right after a probe with its service that returned.\<close>

definition probed :: "quick_env \<Rightarrow> (creds \<times> service) option \<Rightarrow> event list \<Rightarrow> bool" where
  "probed env res tr =
     (case res of
        None \<Rightarrow> True
      | Some (c, svc) \<Rightarrow>
          svc = Service c \<and>
          (\<exists>pre m r. tr = pre @ [Call svc DomainsList, Print (Working m)]
             \<and> execute env pre svc DomainsList = Inr r \<and> Build c \<in> set pre))"

text \<open>The three count lines of \<^verbatim>\<open>test_workspace_access\<close>, and the line of one domain.\<close>

fun is_count :: "event \<Rightarrow> bool" where
  "is_count (Print (FoundDomains n)) = True"
| "is_count (Print (FoundUsers n)) = True"
| "is_count (Print (FoundGroups n)) = True"
| "is_count ev = False"

fun is_domain_line :: "line \<Rightarrow> bool" where
  "is_domain_line (DomainLine name verified) = True"
| "is_domain_line l = False"

text \<open>
  A domain entry with the two keys that line 91 reads; the lines printed for such
  entries; the events of a run up to the users request, and up to the groups request.
\<close>

definition domain_ok :: "pydict \<Rightarrow> bool" where
  "domain_ok domain = (domain ''domainName'' \<noteq> None \<and> domain ''verified'' \<noteq> None)"

definition domain_lines :: "pydict list \<Rightarrow> event list" where
  "domain_lines domains =
     map (\<lambda>domain. Print (DomainLine (cell domain ''domainName'') (cell domain ''verified''))) domains"

definition domains_report :: "service \<Rightarrow> response \<Rightarrow> event list" where
  "domains_report svc d =
     [Print Testing, Call svc DomainsList, Print (FoundDomains (length (entries d)))]
     @ domain_lines (entries d)"

definition users_report :: "service \<Rightarrow> response \<Rightarrow> response \<Rightarrow> event list" where
  "users_report svc d u =
     domains_report svc d @ [Call svc (UsersList 10), Print (FoundUsers (length (entries u)))]"

text \<open>Events that change nothing outside the program: a printed line, a read-only request.\<close>

fun harmless :: "event \<Rightarrow> bool" where
  "harmless (Call s c) = read_only c"
| "harmless (Print l) = True"
| "harmless ev = False"

section \<open>Example inputs\<close>

text \<open>Concrete rows, services and environments, at which the theorems are instantiated.\<close>

definition example_service :: service where
  "example_service = Service \<lparr>token = Some ''ya29'', expired = False, refresh_token = None\<rparr>"

definition example_row :: pydict where
  "example_row = [''Group Email'' \<mapsto> VStr ''legal@aribia.example'',
                  ''Group Name'' \<mapsto> VStr ''Legal'',
                  ''Description'' \<mapsto> VStr ''Legal team'',
                  ''Owners'' \<mapsto> VStr ''ann@aribia.example; bob@aribia.example'']"



text \<open>A well-formed row with one owner.\<close>

definition ann_row :: pydict where
  "ann_row = [''Group Email'' \<mapsto> VStr ''ops@aribia.example'',
              ''Group Name'' \<mapsto> VStr ''Ops'',
              ''Description'' \<mapsto> VStr ''Operations'',
              ''Owners'' \<mapsto> VStr ''ann@aribia.example'']"

definition accepting :: remote where
  "accepting tr svc c = Inr None"

definition rejecting :: remote where
  "rejecting tr svc c = Inl (LibraryError ''HttpError 409'')"

definition rejecting_bob :: remote where
  "rejecting_bob tr svc c =
     (case c of
        MembersInsert k owner r \<Rightarrow>
          (if owner = ''bob@aribia.example'' then Inl (LibraryError ''HttpError 404'') else Inr None)
      | _ \<Rightarrow> Inr None)"

definition fresh_creds :: creds where
  "fresh_creds = \<lparr>token = Some ''ya29.new'', expired = False, refresh_token = Some ''1//rt''\<rparr>"

definition stale_creds :: creds where
  "stale_creds = \<lparr>token = Some ''ya29.old'', expired = True, refresh_token = Some ''1//rt''\<rparr>"

definition example_to_json :: "creds \<Rightarrow> string" where
  "example_to_json c = (case token c of None \<Rightarrow> ''{}'' | Some t \<Rightarrow> ''{token: '' @ t @ ''}'')"

definition env_with :: "(string \<rightharpoonup> string) \<Rightarrow> auth_env" where
  "env_with fs =
     \<lparr>files = fs,
      from_authorized_user_file = (\<lambda>content. if content = ''stale'' then Inr stale_creds
                                               else if content = ''fresh'' then Inr fresh_creds
                                               else Inl (LibraryError ''ValueError'')),
      refresh = (\<lambda>c. Inr (c\<lparr>token := Some ''ya29.new'', expired := False\<rparr>)),
      from_client_secrets_file = (\<lambda>content. None),
      run_local_server = Inr fresh_creds,
      to_json = example_to_json,
      open_for_writing = (\<lambda>path. None)\<rparr>"

definition example_quick_env :: quick_env where
  "example_quick_env =
     \<lparr>user_home = ''/home/admin'',
      default_credentials = (\<lambda>tr scoped. Inl (LibraryError ''DefaultCredentialsError'')),
      build = (\<lambda>tr c. None),
      execute = accepting,
      path_exists = (\<lambda>tr path. path = ''credentials.json''),
      from_service_account_file = (\<lambda>tr path. Inr fresh_creds)\<rparr>"

definition no_credentials_env :: quick_env where
  "no_credentials_env =
     \<lparr>user_home = ''/home/admin'',
      default_credentials = (\<lambda>tr scoped. Inl (LibraryError ''DefaultCredentialsError'')),
      build = (\<lambda>tr c. None),
      execute = rejecting,
      path_exists = (\<lambda>tr path. False),
      from_service_account_file = (\<lambda>tr path. Inl (LibraryError ''ValueError''))\<rparr>"

definition example_domain :: pydict where
  "example_domain = [''domainName'' \<mapsto> VStr ''aribia.example'', ''verified'' \<mapsto> VBool True]"

definition example_directory :: remote where
  "example_directory tr svc c =
     (case c of
        DomainsList \<Rightarrow> Inr (Some [example_domain])
      | UsersList n \<Rightarrow> Inr (Some [Map.empty, Map.empty])
      | GroupsList n \<Rightarrow> Inr None
      | _ \<Rightarrow> Inl (LibraryError ''HttpError 403''))"

definition users_forbidden :: remote where
  "users_forbidden tr svc c =
     (case c of
        DomainsList \<Rightarrow> Inr (Some [example_domain])
      | _ \<Rightarrow> Inl (LibraryError ''HttpError 403''))"

section \<open>Properties of create\_groups\<close>

lemma strip_ann: "strip ''ann@aribia.example'' = ''ann@aribia.example''"
  by (simp add: strip_def lstrip_with.simps space_len_def space_codes_def)

lemma strip_bob: "strip '' bob@aribia.example'' = ''bob@aribia.example''"
  by (simp add: strip_def lstrip_with.simps space_len_def space_codes_def)

lemma strip_unicode:
  "strip ([CHR 0xC2, CHR 0xA0] @ ''ann@aribia.example'' @ [CHR 0xE2, CHR 0x80, CHR 0x89, CHR 0x0A])
     = ''ann@aribia.example''"
  by (simp add: strip_def lstrip_with.simps space_len_def space_codes_def)

lemma outcomes_append: "outcomes rem h (xs @ ys) = outcomes rem h xs @ outcomes rem (h @ xs) ys"
  by (induction rem h xs rule: outcomes.induct) simp_all

lemma outcomes_prints [simp]: "outcomes rem h (map Print ls) = []"
  by (induction ls arbitrary: h) simp_all

lemma add_owners_extends:
  "\<exists>k\<le>length os. snd (add_owners rem svc key os tr) = tr @ member_events svc key (take k os)
     \<and> (fst (add_owners rem svc key os tr) = Inr () \<longrightarrow> k = length os)"
proof (induction os arbitrary: tr)
  case Nil
  then show ?case by (simp add: member_events_def)
next
  case (Cons a os)
  let ?c = "MembersInsert key (strip a) ''OWNER''"
  show ?case
  proof (cases "rem tr svc ?c")
    case (Inl e)
    then have "snd (add_owners rem svc key (a # os) tr) = tr @ member_events svc key (take 1 (a # os))"
      and "fst (add_owners rem svc key (a # os) tr) \<noteq> Inr ()"
      by (simp_all add: member_events_def)
    then show ?thesis by (intro exI[of _ 1]) simp
  next
    case (Inr r)
    from Cons.IH[of "tr @ [Call svc ?c]"] obtain k where k: "k \<le> length os"
      "snd (add_owners rem svc key os (tr @ [Call svc ?c])) = (tr @ [Call svc ?c]) @ member_events svc key (take k os)"
      "fst (add_owners rem svc key os (tr @ [Call svc ?c])) = Inr () \<longrightarrow> k = length os"
      by blast
    with Inr show ?thesis
      by (intro exI[of _ "Suc k"]) (simp add: member_events_def)
  qed
qed


lemma add_owners_all_ok:
  "\<forall>t c. \<exists>r. rem t svc c = Inr r \<Longrightarrow>
     add_owners rem svc key os tr = (Inr (), tr @ member_events svc key os)"
proof (induction os arbitrary: tr)
  case Nil
  then show ?case by (simp add: member_events_def)
next
  case (Cons a os)
  let ?c = "MembersInsert key (strip a) ''OWNER''"
  from Cons.prems obtain r where "rem tr svc ?c = Inr r" by blast
  with Cons.IH[OF Cons.prems, of "tr @ [Call svc ?c]"] show ?case
    by (simp add: member_events_def)
qed

lemma well_formed_has_columns: "well_formed row \<Longrightarrow> has_columns row"
  by (auto simp: well_formed_def has_columns_def split: option.splits)

lemma filter_member_events [simp]:
  "filter is_member_insert (member_events svc key os) = member_events svc key os"
  "filter is_group_insert (member_events svc key os) = []"
  by (induction os) (simp_all add: member_events_def)

lemma filter_prints [simp]:
  "filter is_member_insert (map Print ls) = []"
  "filter is_group_insert (map Print ls) = []"
  by (induction ls) simp_all

lemma try_body_shape:
  "\<exists>k ls. k \<le> length (owners_of row) \<and>
     snd (try_body rem svc row e n d tr) =
       tr @ Call svc (GroupsInsert e n d) # map Print ls @ member_events svc e (take k (owners_of row))"
proof (cases "rem tr svc (GroupsInsert e n d)")
  case (Inl x)
  then have "snd (try_body rem svc row e n d tr) =
       tr @ Call svc (GroupsInsert e n d) # map Print [] @ member_events svc e (take 0 (owners_of row))"
    by (simp add: try_body_def member_events_def)
  then show ?thesis by (metis le0)
next
  case (Inr r)
  let ?tr2 = "tr @ [Call svc (GroupsInsert e n d)] @ [Print (CreatedGroup e)]"
  show ?thesis
  proof (cases "\<exists>s. row ''Owners'' = Some (VStr s)")
    case True
    then obtain s where s: "row ''Owners'' = Some (VStr s)" by blast
    from add_owners_extends[of "owners_of row" rem svc e ?tr2]
    obtain k where k: "k \<le> length (owners_of row)"
      "snd (add_owners rem svc e (owners_of row) ?tr2) = ?tr2 @ member_events svc e (take k (owners_of row))"
      by blast
    with Inr s have "snd (try_body rem svc row e n d tr) =
       tr @ Call svc (GroupsInsert e n d) # map Print [CreatedGroup e] @ member_events svc e (take k (owners_of row))"
      by (simp add: try_body_def owners_of_def)
    with k(1) show ?thesis by blast
  next
    case False
    with Inr have "snd (try_body rem svc row e n d tr) =
       tr @ Call svc (GroupsInsert e n d) # map Print [CreatedGroup e] @ member_events svc e (take 0 (owners_of row))"
      by (auto simp: try_body_def member_events_def Let_def split: option.splits pyval.splits)
    then show ?thesis by (metis le0)
  qed
qed

lemma process_row_shape:
  assumes "has_columns row"
  shows "\<exists>k ls ls'. k \<le> length (owners_of row) \<and>
     process_row rem svc row tr =
       (Inr (), tr @ Call svc (group_call row) # map Print ls
                   @ member_events svc (cell row ''Group Email'') (take k (owners_of row)) @ map Print ls')"
proof -
  from assms obtain e n d where cols:
    "row ''Group Email'' = Some e" "row ''Group Name'' = Some n" "row ''Description'' = Some d"
    by (auto simp: has_columns_def)
  from try_body_shape[of row rem svc e n d tr] obtain k ls where k: "k \<le> length (owners_of row)"
    "snd (try_body rem svc row e n d tr) =
       tr @ Call svc (GroupsInsert e n d) # map Print ls @ member_events svc e (take k (owners_of row))"
    by blast
  obtain res tr' where tb: "try_body rem svc row e n d tr = (res, tr')"
    by (cases "try_body rem svc row e n d tr")
  with k(2) have tr': "tr' = tr @ Call svc (GroupsInsert e n d) # map Print ls @ member_events svc e (take k (owners_of row))"
    by simp
  show ?thesis
  proof (cases res)
    case (Inl x)
    with tb tr' cols have "process_row rem svc row tr =
       (Inr (), tr @ Call svc (group_call row) # map Print ls
                   @ member_events svc (cell row ''Group Email'') (take k (owners_of row))
                   @ map Print [ErrorCreating e x])"
      by (simp add: process_row_def group_call_def cell_def)
    with k(1) show ?thesis by blast
  next
    case (Inr u)
    with tb tr' cols have "process_row rem svc row tr =
       (Inr (), tr @ Call svc (group_call row) # map Print ls
                   @ member_events svc (cell row ''Group Email'') (take k (owners_of row))
                   @ map Print [])"
      by (simp add: process_row_def group_call_def cell_def)
    with k(1) show ?thesis by blast
  qed
qed

lemma process_row_counts:
  assumes "has_columns row"
  shows "\<exists>new. process_row rem svc row tr = (Inr (), tr @ new)
           \<and> length (filter is_group_insert new) = 1
           \<and> length (filter is_member_insert new) \<le> length (owners_of row)"
proof -
  from process_row_shape[OF assms, of rem svc tr] obtain k ls ls' where k: "k \<le> length (owners_of row)"
    "process_row rem svc row tr =
       (Inr (), tr @ Call svc (group_call row) # map Print ls
                   @ member_events svc (cell row ''Group Email'') (take k (owners_of row)) @ map Print ls')"
    by blast
  let ?new = "Call svc (group_call row) # map Print ls
                   @ member_events svc (cell row ''Group Email'') (take k (owners_of row)) @ map Print ls'"
  have "length (filter is_group_insert ?new) = 1"
    by (simp add: group_call_def)
  moreover have "length (filter is_member_insert ?new) \<le> length (owners_of row)"
    using k(1) by (simp add: group_call_def member_events_def)
  ultimately show ?thesis using k(2) by blast
qed

lemma process_rows_counts:
  "list_all has_columns rows \<Longrightarrow>
     \<exists>new. process_rows rem svc rows tr = (Inr (), tr @ new)
       \<and> length (filter is_group_insert new) = length rows
       \<and> length (filter is_member_insert new) \<le> sum_list (map (\<lambda>row. length (owners_of row)) rows)"
proof (induction rows arbitrary: tr)
  case Nil
  then show ?case by simp
next
  case (Cons row rows)
  then have hc: "has_columns row" and rest: "list_all has_columns rows" by simp_all
  from process_row_counts[OF hc, of rem svc tr] obtain new where new:
    "process_row rem svc row tr = (Inr (), tr @ new)"
    "length (filter is_group_insert new) = 1"
    "length (filter is_member_insert new) \<le> length (owners_of row)" by blast
  from Cons.IH[OF rest, of "tr @ new"] obtain new' where new':
    "process_rows rem svc rows (tr @ new) = (Inr (), (tr @ new) @ new')"
    "length (filter is_group_insert new') = length rows"
    "length (filter is_member_insert new') \<le> sum_list (map (\<lambda>row. length (owners_of row)) rows)" by blast
  from new new' have "process_rows rem svc (row # rows) tr = (Inr (), tr @ (new @ new'))"
    and "length (filter is_group_insert (new @ new')) = length (row # rows)"
    and "length (filter is_member_insert (new @ new')) \<le> sum_list (map (\<lambda>row. length (owners_of row)) (row # rows))"
    by simp_all
  then show ?case by blast
qed

lemma process_row_all_ok:
  assumes ok: "\<forall>t c. \<exists>r. rem t svc c = Inr r" and wf: "well_formed row"
  shows "process_row rem svc row tr =
     (Inr (), tr @ [Call svc (group_call row), Print (CreatedGroup (cell row ''Group Email''))]
                 @ member_events svc (cell row ''Group Email'') (owners_of row))"
proof -
  from wf obtain e n d s where cols:
    "row ''Group Email'' = Some (VStr e)" "row ''Group Name'' = Some (VStr n)"
    "row ''Description'' = Some (VStr d)" "row ''Owners'' = Some (VStr s)"
    by (auto simp: well_formed_def split: option.splits pyval.splits)
  from ok obtain r where r: "rem tr svc (GroupsInsert (VStr e) (VStr n) (VStr d)) = Inr r" by blast
  show ?thesis
    using cols r add_owners_all_ok[of rem svc "VStr e" "split_on CHR '';'' s", OF ok]
    by (simp add: process_row_def try_body_def group_call_def cell_def owners_of_def)
qed

lemma process_rows_all_ok:
  assumes ok: "\<forall>t c. \<exists>r. rem t svc c = Inr r"
  shows "list_all well_formed rows \<Longrightarrow>
     \<exists>new. process_rows rem svc rows tr = (Inr (), tr @ new)
       \<and> filter is_member_insert new =
           concat (map (\<lambda>row. member_events svc (cell row ''Group Email'') (owners_of row)) rows)"
proof (induction rows arbitrary: tr)
  case Nil
  then show ?case by simp
next
  case (Cons row rows)
  then have wf: "well_formed row" and rest: "list_all well_formed rows" by simp_all
  let ?new = "[Call svc (group_call row), Print (CreatedGroup (cell row ''Group Email''))]
                 @ member_events svc (cell row ''Group Email'') (owners_of row)"
  from Cons.IH[OF rest, of "tr @ ?new"] obtain new' where new':
    "process_rows rem svc rows (tr @ ?new) = (Inr (), (tr @ ?new) @ new')"
    "filter is_member_insert new' =
           concat (map (\<lambda>row. member_events svc (cell row ''Group Email'') (owners_of row)) rows)" by blast
  have "process_rows rem svc (row # rows) tr = (Inr (), tr @ (?new @ new'))"
    using process_row_all_ok[of rem svc row tr, OF ok wf] new'(1) by simp
  moreover have "filter is_member_insert (?new @ new') =
           concat (map (\<lambda>row. member_events svc (cell row ''Group Email'') (owners_of row)) (row # rows))"
    using new'(2) by (simp add: group_call_def)
  ultimately show ?case by blast
qed


lemma process_row_group_fails:
  assumes "has_columns row" "rem tr svc (group_call row) = Inl x"
  shows "process_row rem svc row tr =
           (Inr (), tr @ [Call svc (group_call row), Print (ErrorCreating (cell row ''Group Email'') x)])"
  using assms
  by (auto simp: has_columns_def process_row_def try_body_def group_call_def cell_def)

lemma process_row_group_ok:
  assumes hc: "has_columns row" and ok: "rem tr svc (group_call row) = Inr r"
  shows "\<exists>mem err. process_row rem svc row tr =
           (Inr (), (tr @ [Call svc (group_call row), Print (CreatedGroup (cell row ''Group Email''))]) @ mem @ err)
         \<and> ((mem = [] \<and> (\<exists>y. err = [Print (ErrorCreating (cell row ''Group Email'') y)]
                \<and> (\<forall>s. row ''Owners'' \<noteq> Some (VStr s)))) \<or>
            ((\<exists>s. row ''Owners'' = Some (VStr s)) \<and>
             (\<exists>res0. add_owners rem svc (cell row ''Group Email'') (owners_of row)
                 (tr @ [Call svc (group_call row), Print (CreatedGroup (cell row ''Group Email''))])
               = (res0, (tr @ [Call svc (group_call row), Print (CreatedGroup (cell row ''Group Email''))]) @ mem)
              \<and> err = (case res0 of Inl y \<Rightarrow> [Print (ErrorCreating (cell row ''Group Email'') y)] | Inr u \<Rightarrow> []))))"
proof -
  from hc obtain e n d where cols:
    "row ''Group Email'' = Some e" "row ''Group Name'' = Some n" "row ''Description'' = Some d"
    by (auto simp: has_columns_def)
  then have g: "group_call row = GroupsInsert e n d" and e: "cell row ''Group Email'' = e"
    by (simp_all add: group_call_def cell_def)
  let ?tr2 = "tr @ [Call svc (GroupsInsert e n d), Print (CreatedGroup e)]"
  show ?thesis
  proof (cases "\<exists>s. row ''Owners'' = Some (VStr s)")
    case True
    then obtain s where s: "row ''Owners'' = Some (VStr s)" by blast
    then have os: "owners_of row = split_on CHR '';'' s" by (simp add: owners_of_def)
    obtain res0 tr' where ao: "add_owners rem svc e (owners_of row) ?tr2 = (res0, tr')"
      by (cases "add_owners rem svc e (owners_of row) ?tr2")
    from add_owners_extends[of "owners_of row" rem svc e ?tr2] ao
    obtain mem where mem: "tr' = ?tr2 @ mem" by auto
    have "process_row rem svc row tr =
           (Inr (), ?tr2 @ mem @ (case res0 of Inl y \<Rightarrow> [Print (ErrorCreating e y)] | Inr u \<Rightarrow> []))"
      using cols ok g s ao mem os
      by (cases res0) (simp_all add: process_row_def try_body_def)
    with ao mem True show ?thesis unfolding g e by blast
  next
    case False
    then have "\<exists>y. process_row rem svc row tr = (Inr (), ?tr2 @ [] @ [Print (ErrorCreating e y)])"
      using cols ok g
      by (auto simp: process_row_def try_body_def Let_def split: option.splits pyval.splits)
    with False show ?thesis unfolding g e by blast
  qed
qed


lemma filter_call_events [simp]:
  "filter is_call (member_events svc key os) = member_events svc key os"
  "filter is_call (map Print ls) = []"
  by (simp_all add: member_events_def filter_empty_conv comp_def)

lemma member_events_take_prefix:
  "prefix (member_events svc key (take k os)) (member_events svc key os)"
  unfolding member_events_def by (intro map_mono_prefix take_is_prefix)

subsection \<open>C1: how many calls are attempted\<close>

text \<open>
  The claim promises one member insert for every listed owner whatever fails. One
  well-formed row with two owners and a service that rejects every request: the group
  insert raises, the \<^verbatim>\<open>except\<close> clause ends the iteration, and no member insert is
  attempted.
\<close>

theorem create_groups_member_calls_counterexample:
  "list_all well_formed [example_row] \<and>
   length (member_inserts (snd (create_groups rejecting example_service (Some [example_row])))) = 0 \<and>
   total_owners [example_row] = 2"
  by (simp add: well_formed_def member_inserts_def total_owners_def owners_of_def create_groups_def
      process_row_def try_body_def example_row_def rejecting_def)

lemma outcomes_mem:
  "(c, rem (h @ pre) s c) \<in> set (outcomes rem h (pre @ Call s c # post))"
  by (simp add: outcomes_append)

lemma add_owners_raises:
  "fst (add_owners rem svc key os tr) = Inl x \<Longrightarrow>
     \<exists>pre c. snd (add_owners rem svc key os tr) = tr @ pre @ [Call svc c] \<and> rem (tr @ pre) svc c = Inl x"
proof (induction os arbitrary: tr)
  case Nil
  then show ?case by simp
next
  case (Cons a os)
  let ?c = "MembersInsert key (strip a) ''OWNER''"
  show ?case
  proof (cases "rem tr svc ?c")
    case (Inl e)
    with Cons.prems show ?thesis by (intro exI[of _ "[]"] exI[of _ ?c]) simp
  next
    case (Inr r)
    with Cons.prems have "fst (add_owners rem svc key os (tr @ [Call svc ?c])) = Inl x" by simp
    from Cons.IH[OF this] obtain pre c where
      "snd (add_owners rem svc key os (tr @ [Call svc ?c])) = (tr @ [Call svc ?c]) @ pre @ [Call svc c]"
      "rem ((tr @ [Call svc ?c]) @ pre) svc c = Inl x" by blast
    with Inr show ?thesis by (intro exI[of _ "Call svc ?c # pre"] exI[of _ c]) simp
  qed
qed

lemma process_row_served:
  assumes hc: "has_columns row"
  shows "\<exists>seg. process_row rem svc row tr = (Inr (), tr @ seg) \<and> row_served rem svc tr row seg"
proof -
  let ?g = "group_call row"
  let ?e = "cell row ''Group Email''"
  let ?all = "member_events svc ?e (owners_of row)"
  show ?thesis
  proof (cases "rem tr svc ?g")
    case (Inl x)
    let ?seg = "[Call svc ?g, Print (ErrorCreating ?e x)]"
    from process_row_group_fails[of row rem tr svc x, OF hc Inl]
    have run: "process_row rem svc row tr = (Inr (), tr @ ?seg)" .
    have "row_served rem svc tr row ?seg"
      using Inl by (simp add: row_served_def group_inserts_def member_inserts_def group_call_def)
    with run show ?thesis by blast
  next
    case (Inr r)
    let ?tr2 = "tr @ [Call svc ?g, Print (CreatedGroup ?e)]"
    from process_row_group_ok[of row rem tr svc r, OF hc Inr] obtain mem err where
      run: "process_row rem svc row tr = (Inr (), ?tr2 @ mem @ err)" and
      alt: "(mem = [] \<and> (\<exists>y. err = [Print (ErrorCreating ?e y)] \<and> (\<forall>s. row ''Owners'' \<noteq> Some (VStr s)))) \<or>
            ((\<exists>s. row ''Owners'' = Some (VStr s)) \<and>
             (\<exists>res0. add_owners rem svc ?e (owners_of row) ?tr2 = (res0, ?tr2 @ mem)
              \<and> err = (case res0 of Inl y \<Rightarrow> [Print (ErrorCreating ?e y)] | Inr u \<Rightarrow> [])))"
      by blast
    let ?seg = "[Call svc ?g, Print (CreatedGroup ?e)] @ mem @ err"
    from run have run': "process_row rem svc row tr = (Inr (), tr @ ?seg)" by simp
    from alt have "row_served rem svc tr row ?seg"
    proof
      assume a: "mem = [] \<and> (\<exists>y. err = [Print (ErrorCreating ?e y)] \<and> (\<forall>s. row ''Owners'' \<noteq> Some (VStr s)))"
      then have "owners_of row = []"
        by (auto simp: owners_of_def split: option.splits pyval.splits)
      with a show ?thesis
        by (auto simp: row_served_def group_inserts_def member_inserts_def group_call_def member_events_def)
    next
      assume "(\<exists>s. row ''Owners'' = Some (VStr s)) \<and>
             (\<exists>res0. add_owners rem svc ?e (owners_of row) ?tr2 = (res0, ?tr2 @ mem)
              \<and> err = (case res0 of Inl y \<Rightarrow> [Print (ErrorCreating ?e y)] | Inr u \<Rightarrow> []))"
      then obtain res0 where ao: "add_owners rem svc ?e (owners_of row) ?tr2 = (res0, ?tr2 @ mem)"
        and err: "err = (case res0 of Inl y \<Rightarrow> [Print (ErrorCreating ?e y)] | Inr u \<Rightarrow> [])" by blast
      from add_owners_extends[of "owners_of row" rem svc ?e ?tr2] ao
      obtain k where k: "k \<le> length (owners_of row)" "mem = member_events svc ?e (take k (owners_of row))"
        "res0 = Inr () \<longrightarrow> k = length (owners_of row)" by auto
      have errp: "\<exists>ls. err = map Print ls"
      proof (cases res0)
        case (Inl y)
        with err have "err = map Print [ErrorCreating ?e y]" by simp
        then show ?thesis by blast
      next
        case (Inr u)
        with err have "err = map Print []" by simp
        then show ?thesis by blast
      qed
      then obtain ls where ls: "err = map Print ls" by blast
      have gi: "group_inserts ?seg = [Call svc ?g]"
        by (simp add: group_inserts_def k(2) ls group_call_def)
      have mi: "member_inserts ?seg = member_events svc ?e (take k (owners_of row))"
        by (simp add: member_inserts_def k(2) ls group_call_def)
      have pre: "prefix (member_inserts ?seg) ?all"
        unfolding mi by (rule member_events_take_prefix)
      have full: "member_inserts ?seg = ?all" if ok: "list_all answered (outcomes rem tr ?seg)"
      proof (cases res0)
        case (Inr u)
        with k(3) have "k = length (owners_of row)" by simp
        with mi show ?thesis by simp
      next
        case (Inl y)
        with ao have "fst (add_owners rem svc ?e (owners_of row) ?tr2) = Inl y" by simp
        from add_owners_raises[OF this] ao obtain pre c where
          m: "mem = pre @ [Call svc c]" and f: "rem (?tr2 @ pre) svc c = Inl y" by auto
        have "(c, rem (tr @ ([Call svc ?g, Print (CreatedGroup ?e)] @ pre)) svc c)
                \<in> set (outcomes rem tr (([Call svc ?g, Print (CreatedGroup ?e)] @ pre) @ Call svc c # err))"
          by (rule outcomes_mem)
        with f m have "(c, Inl y) \<in> set (outcomes rem tr ?seg)" by simp
        with ok have "answered (c, Inl y)" unfolding list_all_iff by blast
        then show ?thesis by simp
      qed
      from gi pre full show ?thesis by (simp add: row_served_def)
    qed
    with run' show ?thesis by blast
  qed
qed

lemma process_rows_served:
  "list_all has_columns rows \<Longrightarrow>
     \<exists>segs. process_rows rem svc rows tr = (Inr (), tr @ concat segs) \<and> rows_served rem svc tr rows segs"
proof (induction rows arbitrary: tr)
  case Nil
  have "process_rows rem svc [] tr = (Inr (), tr @ concat []) \<and> rows_served rem svc tr [] []" by simp
  then show ?case by blast
next
  case (Cons row rows)
  then have hc: "has_columns row" and rest: "list_all has_columns rows" by simp_all
  from process_row_served[of row rem svc tr, OF hc] obtain seg where seg:
    "process_row rem svc row tr = (Inr (), tr @ seg)" "row_served rem svc tr row seg" by blast
  from Cons.IH[OF rest, of "tr @ seg"] obtain segs where segs:
    "process_rows rem svc rows (tr @ seg) = (Inr (), (tr @ seg) @ concat segs)"
    "rows_served rem svc (tr @ seg) rows segs" by blast
  from seg segs have "process_rows rem svc (row # rows) tr = (Inr (), tr @ concat (seg # segs))
      \<and> rows_served rem svc tr (row # rows) (seg # segs)" by simp
  then show ?case by blast
qed

text \<open>
  C1, as amended. For a CSV of well-formed rows (the four columns present, each cell a
  string), whatever the remote calls answer: the function returns normally and its
  trace is one stretch for each row, in order. The stretch of a row holds exactly one
  group insert, the row's; its member inserts are an initial part of the row's owners,
  one insert each and in order, so at most one for each listed owner; and when every
  request of the stretch was answered, every listed owner of the row has its insert,
  also when requests of other rows failed. In total there are exactly as many group
  inserts as rows.
\<close>

theorem create_groups_call_counts:
  assumes "list_all well_formed rows"
  shows "(\<exists>segs. create_groups rem svc (Some rows) = (Inr (), concat segs)
            \<and> rows_served rem svc [] rows segs)
       \<and> length (group_inserts (snd (create_groups rem svc (Some rows)))) = length rows
       \<and> length (member_inserts (snd (create_groups rem svc (Some rows)))) \<le> total_owners rows
       \<and> ((\<forall>t c. \<exists>r. rem t svc c = Inr r) \<longrightarrow>
            member_inserts (snd (create_groups rem svc (Some rows))) =
              concat (map (\<lambda>row. member_events svc (cell row ''Group Email'') (owners_of row)) rows))"
proof -
  from assms have hc: "list_all has_columns rows"
    by (simp add: list_all_iff well_formed_has_columns)
  from process_rows_served[of rows rem svc "[]", OF hc]
  have segs: "\<exists>segs. create_groups rem svc (Some rows) = (Inr (), concat segs)
            \<and> rows_served rem svc [] rows segs"
    by (simp add: create_groups_def)
  from process_rows_counts[of rows rem svc "[]", OF hc]
  have "length (group_inserts (snd (create_groups rem svc (Some rows)))) = length rows"
    and "length (member_inserts (snd (create_groups rem svc (Some rows)))) \<le> total_owners rows"
    by (auto simp: create_groups_def group_inserts_def member_inserts_def total_owners_def)
  moreover have "member_inserts (snd (create_groups rem svc (Some rows))) =
              concat (map (\<lambda>row. member_events svc (cell row ''Group Email'') (owners_of row)) rows)"
    if ok: "\<forall>t c. \<exists>r. rem t svc c = Inr r"
    using process_rows_all_ok[of rem svc rows "[]", OF ok assms]
    by (auto simp: create_groups_def member_inserts_def)
  ultimately show ?thesis using segs by blast
qed

theorem create_groups_call_counts_witness:
  "list_all well_formed [example_row, ann_row]
   \<and> snd (create_groups rejecting_bob example_service (Some [example_row, ann_row])) =
       [Call example_service (group_call example_row),
        Print (CreatedGroup (VStr ''legal@aribia.example'')),
        Call example_service (MembersInsert (VStr ''legal@aribia.example'') ''ann@aribia.example'' ''OWNER''),
        Call example_service (MembersInsert (VStr ''legal@aribia.example'') ''bob@aribia.example'' ''OWNER''),
        Print (ErrorCreating (VStr ''legal@aribia.example'') (LibraryError ''HttpError 404'')),
        Call example_service (group_call ann_row),
        Print (CreatedGroup (VStr ''ops@aribia.example'')),
        Call example_service (MembersInsert (VStr ''ops@aribia.example'') ''ann@aribia.example'' ''OWNER'')]
   \<and> (\<exists>segs. create_groups rejecting_bob example_service (Some [example_row, ann_row]) = (Inr (), concat segs)
          \<and> rows_served rejecting_bob example_service [] [example_row, ann_row] segs)
   \<and> length (group_inserts (snd (create_groups rejecting_bob example_service (Some [example_row, ann_row])))) = 2"
proof -
  have wf: "list_all well_formed [example_row, ann_row]"
    by (simp add: well_formed_def example_row_def ann_row_def)
  have run: "snd (create_groups rejecting_bob example_service (Some [example_row, ann_row])) =
       [Call example_service (group_call example_row),
        Print (CreatedGroup (VStr ''legal@aribia.example'')),
        Call example_service (MembersInsert (VStr ''legal@aribia.example'') ''ann@aribia.example'' ''OWNER''),
        Call example_service (MembersInsert (VStr ''legal@aribia.example'') ''bob@aribia.example'' ''OWNER''),
        Print (ErrorCreating (VStr ''legal@aribia.example'') (LibraryError ''HttpError 404'')),
        Call example_service (group_call ann_row),
        Print (CreatedGroup (VStr ''ops@aribia.example'')),
        Call example_service (MembersInsert (VStr ''ops@aribia.example'') ''ann@aribia.example'' ''OWNER'')]"
    by (simp add: create_groups_def process_row_def try_body_def example_row_def ann_row_def
        rejecting_bob_def group_call_def cell_def strip_ann strip_bob)
  from create_groups_call_counts[of "[example_row, ann_row]" rejecting_bob example_service, OF wf]
  have "(\<exists>segs. create_groups rejecting_bob example_service (Some [example_row, ann_row]) = (Inr (), concat segs)
          \<and> rows_served rejecting_bob example_service [] [example_row, ann_row] segs)"
    and "length (group_inserts (snd (create_groups rejecting_bob example_service (Some [example_row, ann_row])))) = 2"
    by simp_all
  with wf run show ?thesis by blast
qed

subsection \<open>C2: a row that lacks a required column\<close>




subsection \<open>C6: a failing remote call is caught, logged and not retried\<close>



subsection \<open>C9: member inserts come after a successful group insert\<close>



section \<open>Properties of authenticate\<close>

text \<open>
  C4. When \<^verbatim>\<open>token.json\<close> exists and the credential loaded from it is expired and
  carries a refresh token, \<^verbatim>\<open>authenticate\<close> calls \<^verbatim>\<open>refresh\<close> on it, and nothing of
  the interactive flow (reading the client secrets, running the local server) happens
  before that call, nor after it.
\<close>

theorem expired_token_is_refreshed_first:
  assumes "files env ''token.json'' = Some content"
    and "from_authorized_user_file env content = Inr c"
    and "expired c" and "truthy (refresh_token c)"
  shows "\<exists>pre post. trace_of (authenticate env) = pre @ Refresh c # post
           \<and> list_all (\<lambda>ev. \<not> is_interactive ev) pre
           \<and> list_all (\<lambda>ev. \<not> is_interactive ev) post"
proof -
  from assms(3) have nv: "\<not> valid c" by (simp add: valid_def)
  let ?pre = "[PathExists ''token.json'' True, FromAuthorizedUserFile ''token.json'']"
  have "\<exists>post. trace_of (authenticate env) = ?pre @ Refresh c # post
          \<and> list_all (\<lambda>ev. \<not> is_interactive ev) post"
    using assms nv
    by (auto simp: authenticate_def load_cached_def renew_def obtain_creds_def save_token_def
        trace_of_def Let_def split: sum.splits option.splits)
  then obtain post where "trace_of (authenticate env) = ?pre @ Refresh c # post"
    and "list_all (\<lambda>ev. \<not> is_interactive ev) post" by blast
  then show ?thesis by (intro exI[of _ ?pre] exI[of _ post]) simp
qed

theorem expired_token_is_refreshed_first_witness:
  "files (env_with [''token.json'' \<mapsto> ''stale'']) ''token.json'' = Some ''stale''
   \<and> from_authorized_user_file (env_with [''token.json'' \<mapsto> ''stale'']) ''stale'' = Inr stale_creds
   \<and> expired stale_creds \<and> truthy (refresh_token stale_creds)
   \<and> trace_of (authenticate (env_with [''token.json'' \<mapsto> ''stale''])) =
       [PathExists ''token.json'' True, FromAuthorizedUserFile ''token.json'', Refresh stale_creds,
        WriteFile ''token.json'' ''{token: ya29.new}'']"
proof -
  let ?env = "env_with [''token.json'' \<mapsto> ''stale'']"
  have h: "files ?env ''token.json'' = Some ''stale''"
    "from_authorized_user_file ?env ''stale'' = Inr stale_creds"
    "expired stale_creds" "truthy (refresh_token stale_creds)"
    by (simp_all add: env_with_def stale_creds_def truthy_def)
  have run: "trace_of (authenticate ?env) =
       [PathExists ''token.json'' True, FromAuthorizedUserFile ''token.json'', Refresh stale_creds,
        WriteFile ''token.json'' ''{token: ya29.new}'']"
    by (simp add: authenticate_def load_cached_def renew_def obtain_creds_def save_token_def
        trace_of_def env_with_def stale_creds_def truthy_def valid_def example_to_json_def)
  from expired_token_is_refreshed_first[of ?env "''stale''" stale_creds, OF h] h run
  show ?thesis by simp
qed

text \<open>
  C5. When \<^verbatim>\<open>token.json\<close> exists and the credential loaded from it is valid (it has
  a token and the token is not expired), \<^verbatim>\<open>authenticate\<close> returns that credential
  as it is, and nothing of the interactive flow happens: the run is the existence test
  and the load, and no more.
\<close>

theorem valid_token_needs_no_prompt:
  assumes "files env ''token.json'' = Some content"
    and "from_authorized_user_file env content = Inr c"
    and "valid c"
  shows "result_of (authenticate env) = Inr c
       \<and> list_all (\<lambda>ev. \<not> is_interactive ev) (trace_of (authenticate env))
       \<and> trace_of (authenticate env) = [PathExists ''token.json'' True, FromAuthorizedUserFile ''token.json'']"
  using assms
  by (simp add: authenticate_def load_cached_def result_of_def trace_of_def)

theorem valid_token_needs_no_prompt_witness:
  "files (env_with [''token.json'' \<mapsto> ''fresh'']) ''token.json'' = Some ''fresh''
   \<and> from_authorized_user_file (env_with [''token.json'' \<mapsto> ''fresh'']) ''fresh'' = Inr fresh_creds
   \<and> valid fresh_creds
   \<and> result_of (authenticate (env_with [''token.json'' \<mapsto> ''fresh''])) = Inr fresh_creds"
proof -
  let ?env = "env_with [''token.json'' \<mapsto> ''fresh'']"
  have h: "files ?env ''token.json'' = Some ''fresh''"
    "from_authorized_user_file ?env ''fresh'' = Inr fresh_creds"
    "valid fresh_creds"
    by (simp_all add: env_with_def fresh_creds_def valid_def)
  from valid_token_needs_no_prompt[of ?env "''fresh''" fresh_creds, OF h] h
  show ?thesis by simp
qed

text \<open>
  C8. When the interactive flow runs and succeeds, \<^verbatim>\<open>authenticate\<close> writes the
  credential to \<^verbatim>\<open>token.json\<close> (and the file holds it afterwards, unless opening
  the file for writing raises). No other file changes in any run, and no write is
  attempted to any other path. When the cached credential is loaded and valid, no file
  changes and no write is attempted.
\<close>

theorem token_file_is_the_only_file_written:
  shows "(\<forall>c. RunLocalServer \<in> set (trace_of (authenticate env)) \<and> run_local_server env = Inr c \<longrightarrow>
            WriteFile ''token.json'' (to_json env c) \<in> set (trace_of (authenticate env))
            \<and> (open_for_writing env ''token.json'' = None \<longrightarrow>
                 files_of (authenticate env) ''token.json'' = Some (to_json env c)))
       \<and> (\<forall>path. path \<noteq> ''token.json'' \<longrightarrow> files_of (authenticate env) path = files env path)
       \<and> (\<forall>path content. WriteFile path content \<in> set (trace_of (authenticate env)) \<longrightarrow> path = ''token.json'')
       \<and> (\<forall>content c. files env ''token.json'' = Some content \<and> from_authorized_user_file env content = Inr c
             \<and> valid c \<longrightarrow>
            files_of (authenticate env) = files env
            \<and> list_all (\<lambda>ev. \<not> is_write ev) (trace_of (authenticate env)))"
proof (intro conjI allI impI)
  fix c
  assume a: "RunLocalServer \<in> set (trace_of (authenticate env)) \<and> run_local_server env = Inr c"
  then show "WriteFile ''token.json'' (to_json env c) \<in> set (trace_of (authenticate env))"
    by (auto simp: authenticate_def load_cached_def renew_def obtain_creds_def interactive_login_def
        save_token_def trace_of_def Let_def split: sum.splits option.splits if_splits)
  assume "open_for_writing env ''token.json'' = None"
  with a show "files_of (authenticate env) ''token.json'' = Some (to_json env c)"
    by (auto simp: authenticate_def load_cached_def renew_def obtain_creds_def interactive_login_def
        save_token_def trace_of_def files_of_def Let_def split: sum.splits option.splits if_splits)
next
  fix path :: string
  assume "path \<noteq> ''token.json''"
  then show "files_of (authenticate env) path = files env path"
    by (auto simp: authenticate_def renew_def save_token_def files_of_def Let_def
        split: sum.splits option.splits prod.splits)
next
  fix path content
  assume "WriteFile path content \<in> set (trace_of (authenticate env))"
  then show "path = ''token.json''"
    by (auto simp: authenticate_def load_cached_def renew_def obtain_creds_def interactive_login_def
        save_token_def trace_of_def Let_def split: sum.splits option.splits if_splits)
next
  fix content c
  assume a: "files env ''token.json'' = Some content \<and> from_authorized_user_file env content = Inr c \<and> valid c"
  then show "files_of (authenticate env) = files env"
    by (simp add: authenticate_def load_cached_def files_of_def)
  from a show "list_all (\<lambda>ev. \<not> is_write ev) (trace_of (authenticate env))"
    by (simp add: authenticate_def load_cached_def trace_of_def)
qed

theorem token_file_is_the_only_file_written_witness:
  "RunLocalServer \<in> set (trace_of (authenticate (env_with [''credentials.json'' \<mapsto> ''secret''])))
   \<and> run_local_server (env_with [''credentials.json'' \<mapsto> ''secret'']) = Inr fresh_creds
   \<and> open_for_writing (env_with [''credentials.json'' \<mapsto> ''secret'']) ''token.json'' = None
   \<and> files_of (authenticate (env_with [''credentials.json'' \<mapsto> ''secret''])) ''token.json''
        = Some ''{token: ya29.new}''
   \<and> files_of (authenticate (env_with [''credentials.json'' \<mapsto> ''secret''])) ''credentials.json''
        = Some ''secret''"
proof -
  let ?env = "env_with [''credentials.json'' \<mapsto> ''secret'']"
  have run: "trace_of (authenticate ?env) =
      [PathExists ''token.json'' False, FromClientSecretsFile ''credentials.json'', RunLocalServer,
       WriteFile ''token.json'' ''{token: ya29.new}'']"
    by (simp add: authenticate_def load_cached_def renew_def obtain_creds_def interactive_login_def
        save_token_def trace_of_def env_with_def fresh_creds_def example_to_json_def)
  have h: "RunLocalServer \<in> set (trace_of (authenticate ?env))"
    "run_local_server ?env = Inr fresh_creds" "open_for_writing ?env ''token.json'' = None"
    "to_json ?env fresh_creds = ''{token: ya29.new}''" "files ?env ''credentials.json'' = Some ''secret''"
    unfolding run by (simp_all add: env_with_def fresh_creds_def example_to_json_def)
  from token_file_is_the_only_file_written[of ?env] h
  show ?thesis by auto
qed

section \<open>Properties of try\_authentication\<close>

lemma started_append [simp]: "started (xs @ ys) = started xs @ started ys"
  by (induction xs) (simp_all split: option.splits)

lemma first_success_seq:
  assumes "first_success ms1 None new1" and "first_success ms2 res new2"
  shows "first_success (ms1 @ ms2) res (new1 @ new2)"
proof (cases res)
  case None
  with assms show ?thesis by (simp add: first_success_def)
next
  case (Some cs)
  with assms have s1: "started new1 = ms1" "\<not> list_ex is_working new1"
    and s2: "started new2 \<noteq> []" "prefix (started new2) ms2" "new2 \<noteq> []"
      "last new2 = Print (Working (last (started new2)))" "\<not> list_ex is_working (butlast new2)"
    by (simp_all add: first_success_def)
  have "butlast (new1 @ new2) = new1 @ butlast new2"
    using s2(3) by (simp add: butlast_append)
  with s1 s2 Some show ?thesis
    by (simp add: first_success_def)
qed

lemma build_and_probe_cases:
  "(\<exists>e. build_and_probe env c tr = (Inl e, tr @ [Build c])) \<or>
   (\<exists>e. build_and_probe env c tr = (Inl e, tr @ [Build c, Call (Service c) DomainsList])) \<or>
   (\<exists>r. build_and_probe env c tr = (Inr (Service c), tr @ [Build c, Call (Service c) DomainsList])
        \<and> execute env (tr @ [Build c]) (Service c) DomainsList = Inr r)"
  by (auto simp: build_and_probe_def Let_def split: option.splits sum.splits)

lemma try_adc_first_success:
  "\<exists>new. snd (try_adc env tr) = tr @ new \<and> first_success [ADC] (fst (try_adc env tr)) new
       \<and> probed env (fst (try_adc env tr)) (tr @ new)"
proof (cases "default_credentials env (tr @ [Print (Trying ADC)]) True")
  case (Inl e)
  then have "try_adc env tr = (None, tr @ [Print (Trying ADC), DefaultCredentials True, Print (AdcFailed e)])"
    by (simp add: try_adc_def)
  then show ?thesis
    by (simp add: first_success_def probed_def)
next
  case (Inr c)
  let ?tr2 = "tr @ [Print (Trying ADC), DefaultCredentials True]"
  from build_and_probe_cases[of env c ?tr2]
  consider e where "build_and_probe env c ?tr2 = (Inl e, ?tr2 @ [Build c])"
    | e where "build_and_probe env c ?tr2 = (Inl e, ?tr2 @ [Build c, Call (Service c) DomainsList])"
    | r where "build_and_probe env c ?tr2 = (Inr (Service c), ?tr2 @ [Build c, Call (Service c) DomainsList])"
        "execute env (?tr2 @ [Build c]) (Service c) DomainsList = Inr r"
    by blast
  then show ?thesis
  proof cases
    case 1
    with Inr have "try_adc env tr = (None, tr @ [Print (Trying ADC), DefaultCredentials True, Build c, Print (AdcFailed e)])"
      by (simp add: try_adc_def)
    then show ?thesis by (simp add: first_success_def probed_def)
  next
    case 2
    with Inr have "try_adc env tr = (None, tr @ [Print (Trying ADC), DefaultCredentials True, Build c,
        Call (Service c) DomainsList, Print (AdcFailed e)])"
      by (simp add: try_adc_def)
    then show ?thesis by (simp add: first_success_def probed_def)
  next
    case 3
    with Inr have run: "try_adc env tr = (Some (c, Service c), tr @ [Print (Trying ADC), DefaultCredentials True, Build c,
        Call (Service c) DomainsList, Print (Working ADC)])"
      by (simp add: try_adc_def)
    have "\<exists>pre m r. tr @ [Print (Trying ADC), DefaultCredentials True, Build c,
        Call (Service c) DomainsList, Print (Working ADC)] = pre @ [Call (Service c) DomainsList, Print (Working m)]
         \<and> execute env pre (Service c) DomainsList = Inr r \<and> Build c \<in> set pre"
      using 3(2) by (intro exI[of _ "?tr2 @ [Build c]"] exI[of _ ADC] exI[of _ r]) simp
    with run show ?thesis by (simp add: first_success_def probed_def)
  qed
qed

lemma try_service_account_step:
  "\<exists>new. snd (try_service_account env path tr) = tr @ new
       \<and> first_success [ServiceAccount path] (fst (try_service_account env path tr)) (PathExists path True # new)
       \<and> probed env (fst (try_service_account env path tr)) (tr @ new)"
proof (cases "from_service_account_file env (tr @ [Print (Trying (ServiceAccount path))]) path")
  case (Inl e)
  then have "try_service_account env path tr =
      (None, tr @ [Print (Trying (ServiceAccount path)), FromServiceAccountFile path, Print (ServiceAccountFailed e)])"
    by (simp add: try_service_account_def)
  then show ?thesis
    by (simp add: first_success_def probed_def)
next
  case (Inr c)
  let ?tr2 = "tr @ [Print (Trying (ServiceAccount path)), FromServiceAccountFile path]"
  from build_and_probe_cases[of env c ?tr2]
  consider e where "build_and_probe env c ?tr2 = (Inl e, ?tr2 @ [Build c])"
    | e where "build_and_probe env c ?tr2 = (Inl e, ?tr2 @ [Build c, Call (Service c) DomainsList])"
    | r where "build_and_probe env c ?tr2 = (Inr (Service c), ?tr2 @ [Build c, Call (Service c) DomainsList])"
        "execute env (?tr2 @ [Build c]) (Service c) DomainsList = Inr r"
    by blast
  then show ?thesis
  proof cases
    case 1
    with Inr have "try_service_account env path tr =
        (None, tr @ [Print (Trying (ServiceAccount path)), FromServiceAccountFile path, Build c,
                     Print (ServiceAccountFailed e)])"
      by (simp add: try_service_account_def)
    then show ?thesis by (simp add: first_success_def probed_def)
  next
    case 2
    with Inr have "try_service_account env path tr =
        (None, tr @ [Print (Trying (ServiceAccount path)), FromServiceAccountFile path, Build c,
                     Call (Service c) DomainsList, Print (ServiceAccountFailed e)])"
      by (simp add: try_service_account_def)
    then show ?thesis by (simp add: first_success_def probed_def)
  next
    case 3
    with Inr have run: "try_service_account env path tr =
        (Some (c, Service c), tr @ [Print (Trying (ServiceAccount path)), FromServiceAccountFile path, Build c,
                     Call (Service c) DomainsList, Print (Working (ServiceAccount path))])"
      by (simp add: try_service_account_def)
    have "\<exists>pre m r. tr @ [Print (Trying (ServiceAccount path)), FromServiceAccountFile path, Build c,
                     Call (Service c) DomainsList, Print (Working (ServiceAccount path))]
           = pre @ [Call (Service c) DomainsList, Print (Working m)]
         \<and> execute env pre (Service c) DomainsList = Inr r \<and> Build c \<in> set pre"
      using 3(2) by (intro exI[of _ "?tr2 @ [Build c]"] exI[of _ "ServiceAccount path"] exI[of _ r]) simp
    with run show ?thesis by (simp add: first_success_def probed_def)
  qed
qed

lemma try_service_accounts_first_success:
  "\<exists>new. snd (try_service_accounts env paths tr) = tr @ new
       \<and> first_success (map ServiceAccount paths) (fst (try_service_accounts env paths tr)) new
       \<and> probed env (fst (try_service_accounts env paths tr)) (tr @ new)"
proof (induction paths arbitrary: tr)
  case Nil
  then show ?case by (simp add: first_success_def probed_def)
next
  case (Cons path paths)
  show ?case
  proof (cases "path_exists env tr path")
    case False
    from Cons.IH[of "tr @ [PathExists path False]"] obtain new where new:
      "snd (try_service_accounts env paths (tr @ [PathExists path False])) = (tr @ [PathExists path False]) @ new"
      "first_success (map ServiceAccount paths) (fst (try_service_accounts env paths (tr @ [PathExists path False]))) new"
      "probed env (fst (try_service_accounts env paths (tr @ [PathExists path False]))) ((tr @ [PathExists path False]) @ new)"
      by blast
    have one: "first_success [ServiceAccount path] None [PathExists path False]"
      by (simp add: first_success_def)
    from first_success_seq[OF one new(2)] new(1,3) False
    have "snd (try_service_accounts env (path # paths) tr) = tr @ ([PathExists path False] @ new)
       \<and> first_success (map ServiceAccount (path # paths)) (fst (try_service_accounts env (path # paths) tr))
            ([PathExists path False] @ new)
       \<and> probed env (fst (try_service_accounts env (path # paths) tr)) (tr @ ([PathExists path False] @ new))"
      by simp
    then show ?thesis by blast
  next
    case True
    let ?tr1 = "tr @ [PathExists path True]"
    from try_service_account_step[of env path ?tr1] obtain new1 where new1:
      "snd (try_service_account env path ?tr1) = ?tr1 @ new1"
      "first_success [ServiceAccount path] (fst (try_service_account env path ?tr1)) (PathExists path True # new1)"
      "probed env (fst (try_service_account env path ?tr1)) (?tr1 @ new1)"
      by blast
    show ?thesis
    proof (cases "fst (try_service_account env path ?tr1)")
      case (Some cs)
      with new1(1) have sa: "try_service_account env path ?tr1 = (Some cs, ?tr1 @ new1)"
        by (metis prod.collapse)
      from new1(2) Some have "first_success (map ServiceAccount (path # paths)) (Some cs) (PathExists path True # new1)"
        by (simp add: first_success_def)
      with sa new1(3) Some True
      have "snd (try_service_accounts env (path # paths) tr) = tr @ (PathExists path True # new1)
       \<and> first_success (map ServiceAccount (path # paths)) (fst (try_service_accounts env (path # paths) tr))
            (PathExists path True # new1)
       \<and> probed env (fst (try_service_accounts env (path # paths) tr)) (tr @ (PathExists path True # new1))"
        by simp
      then show ?thesis by blast
    next
      case None
      with new1(1) have sa: "try_service_account env path ?tr1 = (None, ?tr1 @ new1)"
        by (metis prod.collapse)
      from Cons.IH[of "?tr1 @ new1"] obtain new where new:
        "snd (try_service_accounts env paths (?tr1 @ new1)) = (?tr1 @ new1) @ new"
        "first_success (map ServiceAccount paths) (fst (try_service_accounts env paths (?tr1 @ new1))) new"
        "probed env (fst (try_service_accounts env paths (?tr1 @ new1))) ((?tr1 @ new1) @ new)"
        by blast
      from new1(2) None have one: "first_success [ServiceAccount path] None (PathExists path True # new1)"
        by simp
      from first_success_seq[OF one new(2)] new(1,3) sa True
      have "snd (try_service_accounts env (path # paths) tr) = tr @ ((PathExists path True # new1) @ new)
       \<and> first_success (map ServiceAccount (path # paths)) (fst (try_service_accounts env (path # paths) tr))
            ((PathExists path True # new1) @ new)
       \<and> probed env (fst (try_service_accounts env (path # paths) tr)) (tr @ ((PathExists path True # new1) @ new))"
        by simp
      then show ?thesis by blast
    qed
  qed
qed

lemma try_gcloud_first_success:
  "\<exists>new. snd (try_gcloud env tr) = tr @ new \<and> first_success [GcloudLogin] (fst (try_gcloud env tr)) new
       \<and> probed env (fst (try_gcloud env tr)) (tr @ new)"
proof (cases "default_credentials env (tr @ [Print (Trying GcloudLogin), OsSystem]) False")
  case (Inl e)
  then have "try_gcloud env tr =
      (None, tr @ [Print (Trying GcloudLogin), OsSystem, DefaultCredentials False, Print (GcloudFailed e)])"
    by (simp add: try_gcloud_def)
  then show ?thesis
    by (simp add: first_success_def probed_def)
next
  case (Inr c)
  let ?tr2 = "tr @ [Print (Trying GcloudLogin), OsSystem, DefaultCredentials False]"
  from build_and_probe_cases[of env c ?tr2]
  consider e where "build_and_probe env c ?tr2 = (Inl e, ?tr2 @ [Build c])"
    | e where "build_and_probe env c ?tr2 = (Inl e, ?tr2 @ [Build c, Call (Service c) DomainsList])"
    | r where "build_and_probe env c ?tr2 = (Inr (Service c), ?tr2 @ [Build c, Call (Service c) DomainsList])"
        "execute env (?tr2 @ [Build c]) (Service c) DomainsList = Inr r"
    by blast
  then show ?thesis
  proof cases
    case 1
    with Inr have "try_gcloud env tr =
        (None, tr @ [Print (Trying GcloudLogin), OsSystem, DefaultCredentials False, Build c,
                     Print (GcloudFailed e)])"
      by (simp add: try_gcloud_def)
    then show ?thesis by (simp add: first_success_def probed_def)
  next
    case 2
    with Inr have "try_gcloud env tr =
        (None, tr @ [Print (Trying GcloudLogin), OsSystem, DefaultCredentials False, Build c,
                     Call (Service c) DomainsList, Print (GcloudFailed e)])"
      by (simp add: try_gcloud_def)
    then show ?thesis by (simp add: first_success_def probed_def)
  next
    case 3
    with Inr have run: "try_gcloud env tr =
        (Some (c, Service c), tr @ [Print (Trying GcloudLogin), OsSystem, DefaultCredentials False, Build c,
                     Call (Service c) DomainsList, Print (Working GcloudLogin)])"
      by (simp add: try_gcloud_def)
    have "\<exists>pre m r. tr @ [Print (Trying GcloudLogin), OsSystem, DefaultCredentials False, Build c,
                     Call (Service c) DomainsList, Print (Working GcloudLogin)]
           = pre @ [Call (Service c) DomainsList, Print (Working m)]
         \<and> execute env pre (Service c) DomainsList = Inr r \<and> Build c \<in> set pre"
      using 3(2) by (intro exI[of _ "?tr2 @ [Build c]"] exI[of _ GcloudLogin] exI[of _ r]) simp
    with run show ?thesis by (simp add: first_success_def probed_def)
  qed
qed

lemma first_success_extend:
  "first_success ms (Some cs) new \<Longrightarrow> first_success (ms @ ms') (Some cs) new"
  by (auto simp: first_success_def intro: prefix_order.trans)

lemma try_authentication_first_success:
  "\<exists>new. snd (try_authentication env) = Print Attempting # new
      \<and> first_success (documented_order env) (fst (try_authentication env)) new
      \<and> probed env (fst (try_authentication env)) (Print Attempting # new)"
proof -
  let ?tr0 = "[Print Attempting]"
  from try_adc_first_success[of env ?tr0] obtain n1 where n1:
    "snd (try_adc env ?tr0) = ?tr0 @ n1" "first_success [ADC] (fst (try_adc env ?tr0)) n1"
    "probed env (fst (try_adc env ?tr0)) (?tr0 @ n1)" by blast
  show ?thesis
  proof (cases "fst (try_adc env ?tr0)")
    case (Some cs)
    with n1(1) have adc: "try_adc env ?tr0 = (Some cs, ?tr0 @ n1)" by (metis prod.collapse)
    from n1(2) Some have "first_success ([ADC] @ map ServiceAccount (service_account_paths env) @ [GcloudLogin]) (Some cs) n1"
      by (intro first_success_extend) simp
    then have "first_success (documented_order env) (Some cs) n1"
      by (simp add: documented_order_def)
    with adc n1(3) Some show ?thesis by (simp add: try_authentication_def)
  next
    case None
    with n1(1) have adc: "try_adc env ?tr0 = (None, ?tr0 @ n1)" by (metis prod.collapse)
    from n1(2) None have f1: "first_success [ADC] None n1" by simp
    let ?tr1 = "?tr0 @ n1"
    let ?ps = "service_account_paths env"
    from try_service_accounts_first_success[of env ?ps ?tr1] obtain n2 where n2:
      "snd (try_service_accounts env ?ps ?tr1) = ?tr1 @ n2"
      "first_success (map ServiceAccount ?ps) (fst (try_service_accounts env ?ps ?tr1)) n2"
      "probed env (fst (try_service_accounts env ?ps ?tr1)) (?tr1 @ n2)" by blast
    show ?thesis
    proof (cases "fst (try_service_accounts env ?ps ?tr1)")
      case (Some cs)
      with n2(1) have sa: "try_service_accounts env ?ps ?tr1 = (Some cs, ?tr1 @ n2)" by (metis prod.collapse)
      from n2(2) Some have "first_success (map ServiceAccount ?ps @ [GcloudLogin]) (Some cs) n2"
        by (simp add: first_success_def)
      from first_success_seq[OF f1 this] have "first_success (documented_order env) (Some cs) (n1 @ n2)"
        by (simp add: documented_order_def)
      with adc sa n2(3) Some show ?thesis by (simp add: try_authentication_def)
    next
      case None
      with n2(1) have sa: "try_service_accounts env ?ps ?tr1 = (None, ?tr1 @ n2)" by (metis prod.collapse)
      from n2(2) None have f2: "first_success (map ServiceAccount ?ps) None n2" by simp
      let ?tr2 = "?tr1 @ n2"
      from try_gcloud_first_success[of env ?tr2] obtain n3 where n3:
        "snd (try_gcloud env ?tr2) = ?tr2 @ n3" "first_success [GcloudLogin] (fst (try_gcloud env ?tr2)) n3"
        "probed env (fst (try_gcloud env ?tr2)) (?tr2 @ n3)" by blast
      obtain res where g: "try_gcloud env ?tr2 = (res, ?tr2 @ n3)"
        using n3(1) by (metis prod.collapse)
      with n3 have f3: "first_success [GcloudLogin] res n3" and p3: "probed env res (?tr2 @ n3)" by simp_all
      from first_success_seq[OF f1 first_success_seq[OF f2 f3]]
      have "first_success (documented_order env) res (n1 @ n2 @ n3)"
        by (simp add: documented_order_def)
      moreover have "try_authentication env = (res, ?tr2 @ n3)"
        using adc sa g by (cases res) (simp_all add: try_authentication_def)
      ultimately show ?thesis using p3 by simp
    qed
  qed
qed

lemma documented_order_distinct: "distinct (documented_order env)"
proof -
  have "length (user_home env @ ''/.config/gcloud/service-account.json'') \<noteq> length ''service-account.json''"
    and "length (user_home env @ ''/.config/gcloud/service-account.json'') \<noteq> length ''credentials.json''"
    by simp_all
  then have "user_home env @ ''/.config/gcloud/service-account.json'' \<noteq> ''service-account.json''"
    and "user_home env @ ''/.config/gcloud/service-account.json'' \<noteq> ''credentials.json''"
    by fastforce+
  then show ?thesis
    by (auto simp: documented_order_def service_account_paths_def)
qed

lemma example_quick_run:
  "try_authentication example_quick_env =
     (Some (fresh_creds, Service fresh_creds),
      [Print Attempting,
       Print (Trying ADC), DefaultCredentials True, Print (AdcFailed (LibraryError ''DefaultCredentialsError'')),
       PathExists ''service-account.json'' False,
       PathExists ''credentials.json'' True,
       Print (Trying (ServiceAccount ''credentials.json'')), FromServiceAccountFile ''credentials.json'',
       Build fresh_creds, Call (Service fresh_creds) DomainsList,
       Print (Working (ServiceAccount ''credentials.json''))])"
  by (simp add: try_authentication_def try_adc_def service_account_paths_def try_service_account_def
      build_and_probe_def example_quick_env_def accepting_def Let_def)

lemma no_credentials_run:
  "try_authentication no_credentials_env =
     (None,
      [Print Attempting,
       Print (Trying ADC), DefaultCredentials True, Print (AdcFailed (LibraryError ''DefaultCredentialsError'')),
       PathExists ''service-account.json'' False,
       PathExists ''credentials.json'' False,
       PathExists ''/home/admin/.config/gcloud/service-account.json'' False,
       Print (Trying GcloudLogin), OsSystem, DefaultCredentials False,
       Print (GcloudFailed (LibraryError ''DefaultCredentialsError''))])"
  by (simp add: try_authentication_def try_adc_def service_account_paths_def try_gcloud_def
      no_credentials_env_def Let_def)

lemma requested_append [simp]: "requested (xs @ ys) = requested xs @ requested ys"
  by (induction xs) (simp_all split: option.splits)

lemma ready_append [simp]: "ready (xs @ ys) = ready xs @ ready ys"
  by (induction xs) (simp_all split: option.splits)

lemma try_adc_spec:
  "try_adc env tr = (fst (spec_attempt env tr ADC), tr @ snd (spec_attempt env tr ADC))"
  by (simp add: try_adc_def spec_attempt_def spec_credential_attempt_def build_and_probe_def
      credential_events_def credential_answer_def failure_line_def Let_def
      split: sum.splits option.splits)

lemma try_gcloud_spec:
  "try_gcloud env tr = (fst (spec_attempt env tr GcloudLogin), tr @ snd (spec_attempt env tr GcloudLogin))"
  by (simp add: try_gcloud_def spec_attempt_def spec_credential_attempt_def build_and_probe_def
      credential_events_def credential_answer_def failure_line_def Let_def
      split: sum.splits option.splits)

lemma try_service_account_spec:
  "try_service_account env path tr =
     (fst (spec_credential_attempt env tr (ServiceAccount path)),
      tr @ snd (spec_credential_attempt env tr (ServiceAccount path)))"
  by (simp add: try_service_account_def spec_credential_attempt_def build_and_probe_def
      credential_events_def credential_answer_def failure_line_def Let_def
      split: sum.splits option.splits)

lemma try_service_accounts_spec:
  "try_service_accounts env paths tr = spec_fallback_chain env (map ServiceAccount paths) tr"
proof (induction paths arbitrary: tr)
  case Nil
  then show ?case by simp
next
  case (Cons path paths)
  show ?case
  proof (cases "path_exists env tr path")
    case False
    with Cons.IH[of "tr @ [PathExists path False]"] show ?thesis
      by (simp add: spec_attempt_def)
  next
    case True
    obtain res evs where sa: "spec_credential_attempt env (tr @ [PathExists path True]) (ServiceAccount path) = (res, evs)"
      by (cases "spec_credential_attempt env (tr @ [PathExists path True]) (ServiceAccount path)")
    with True Cons.IH[of "tr @ PathExists path True # evs"] show ?thesis
      by (cases res) (simp_all add: spec_attempt_def try_service_account_spec)
  qed
qed

lemma spec_fallback_chain_append:
  "spec_fallback_chain env (ms @ ms') h =
     (case spec_fallback_chain env ms h of
        (Some cs, tr) \<Rightarrow> (Some cs, tr)
      | (None, tr) \<Rightarrow> spec_fallback_chain env ms' tr)"
  by (induction ms arbitrary: h) (auto split: prod.splits option.splits)

lemma try_authentication_spec:
  "try_authentication env =
     spec_fallback_chain env
       [ADC, ServiceAccount ''service-account.json'', ServiceAccount ''credentials.json'',
        ServiceAccount (user_home env @ ''/.config/gcloud/service-account.json''), GcloudLogin]
       [Print Attempting]"
proof -
  let ?ps = "service_account_paths env"
  have split: "[ADC, ServiceAccount ''service-account.json'', ServiceAccount ''credentials.json'',
        ServiceAccount (user_home env @ ''/.config/gcloud/service-account.json''), GcloudLogin]
      = [ADC] @ map ServiceAccount ?ps @ [GcloudLogin]"
    by (simp add: service_account_paths_def)
  have adc: "spec_fallback_chain env [ADC] h =
      (case try_adc env h of (Some cs, tr) \<Rightarrow> (Some cs, tr) | (None, tr) \<Rightarrow> (None, tr))" for h
    by (cases "spec_attempt env h ADC"; cases "fst (spec_attempt env h ADC)")
       (simp_all add: try_adc_spec)
  have gc: "spec_fallback_chain env [GcloudLogin] h =
      (case try_gcloud env h of (Some cs, tr) \<Rightarrow> (Some cs, tr) | (None, tr) \<Rightarrow> (None, tr))" for h
    by (cases "spec_attempt env h GcloudLogin"; cases "fst (spec_attempt env h GcloudLogin)")
       (simp_all add: try_gcloud_spec)
  show ?thesis
    unfolding split spec_fallback_chain_append adc gc try_authentication_def try_service_accounts_spec
    by (auto split: prod.splits option.splits)
qed

lemma spec_credential_attempt_counts:
  "requested (snd (spec_credential_attempt env h m)) = [m]
   \<and> length (filter is_build (snd (spec_credential_attempt env h m))) \<le> 1
   \<and> length (filter is_call (snd (spec_credential_attempt env h m)))
       \<le> length (filter is_build (snd (spec_credential_attempt env h m)))"
  by (cases m)
     (simp_all add: spec_credential_attempt_def credential_events_def failure_line_def Let_def
        split: sum.splits option.splits)

lemma spec_credential_attempt_ready:
  "ready (snd (spec_credential_attempt env h m)) = (case m of ServiceAccount path \<Rightarrow> [] | _ \<Rightarrow> [m])"
  by (cases m)
     (simp_all add: spec_credential_attempt_def credential_events_def failure_line_def Let_def
        split: sum.splits option.splits)

lemma spec_attempt_counts:
  "requested (snd (spec_attempt env h m)) = ready (snd (spec_attempt env h m))
   \<and> length (filter is_build (snd (spec_attempt env h m))) \<le> length (requested (snd (spec_attempt env h m)))
   \<and> length (filter is_call (snd (spec_attempt env h m)))
       \<le> length (filter is_build (snd (spec_attempt env h m)))"
proof (cases m)
  case ADC
  with spec_credential_attempt_counts[of env h ADC] spec_credential_attempt_ready[of env h ADC]
  show ?thesis by (simp add: spec_attempt_def)
next
  case GcloudLogin
  with spec_credential_attempt_counts[of env h GcloudLogin] spec_credential_attempt_ready[of env h GcloudLogin]
  show ?thesis by (simp add: spec_attempt_def)
next
  case (ServiceAccount path)
  show ?thesis
  proof (cases "path_exists env h path")
    case False
    with ServiceAccount show ?thesis by (simp add: spec_attempt_def)
  next
    case True
    obtain res evs where ca:
      "spec_credential_attempt env (h @ [PathExists path True]) (ServiceAccount path) = (res, evs)"
      by (cases "spec_credential_attempt env (h @ [PathExists path True]) (ServiceAccount path)")
    from spec_credential_attempt_counts[of env "h @ [PathExists path True]" "ServiceAccount path"]
      spec_credential_attempt_ready[of env "h @ [PathExists path True]" "ServiceAccount path"]
    have "requested evs = [ServiceAccount path]" "ready evs = []"
      "length (filter is_build evs) \<le> 1" "length (filter is_call evs) \<le> length (filter is_build evs)"
      unfolding ca by simp_all
    with ServiceAccount True ca show ?thesis by (simp add: spec_attempt_def)
  qed
qed

lemma spec_fallback_chain_counts:
  "\<exists>new. snd (spec_fallback_chain env ms h) = h @ new
     \<and> requested new = ready new
     \<and> length (filter is_build new) \<le> length (requested new)
     \<and> length (filter is_call new) \<le> length (filter is_build new)"
proof (induction ms arbitrary: h)
  case Nil
  then show ?case by simp
next
  case (Cons m ms)
  obtain res evs where at: "spec_attempt env h m = (res, evs)"
    by (cases "spec_attempt env h m")
  from spec_attempt_counts[of env h m]
  have c: "requested evs = ready evs" "length (filter is_build evs) \<le> length (requested evs)"
    "length (filter is_call evs) \<le> length (filter is_build evs)"
    unfolding at snd_conv by blast+
  show ?case
  proof (cases res)
    case (Some cs)
    with at c show ?thesis by simp
  next
    case None
    from Cons.IH[of "h @ evs"] obtain new where new:
      "snd (spec_fallback_chain env ms (h @ evs)) = (h @ evs) @ new"
      "requested new = ready new"
      "length (filter is_build new) \<le> length (requested new)"
      "length (filter is_call new) \<le> length (filter is_build new)" by blast
    with None at c have "snd (spec_fallback_chain env (m # ms) h) = h @ (evs @ new)
      \<and> requested (evs @ new) = ready (evs @ new)
      \<and> length (filter is_build (evs @ new)) \<le> length (requested (evs @ new))
      \<and> length (filter is_call (evs @ new)) \<le> length (filter is_build (evs @ new))"
      by simp
    then show ?thesis by blast
  qed
qed

lemma ready_in_started: "set (ready tr) \<subseteq> set (started tr)"
proof (induction tr)
  case Nil
  then show ?case by simp
next
  case (Cons ev tr)
  then show ?case
    by (cases ev rule: ready_of.cases) auto
qed

lemma ready_distinct: "distinct (started tr) \<Longrightarrow> distinct (ready tr)"
proof (induction tr)
  case Nil
  then show ?case by simp
next
  case (Cons ev tr)
  then show ?case
    using ready_in_started[of tr]
    by (cases ev rule: ready_of.cases) auto
qed

text \<open>
  C3. \<^verbatim>\<open>try_authentication\<close> is the fallback chain of the spec over the documented
  order: Application Default Credentials, the three service-account paths as listed,
  the gcloud login; so every method the run reaches is attempted in full, once, and
  the run ends with the first attempt that returns a pair. Read off the trace: the
  methods started are an initial part of the documented order, none twice (a
  service-account path is started by the test whether its file exists, and fails there
  when it does not). Every method with something to try asks for its credential, once
  and in order; no credential is built into a client twice and no client is probed
  twice. When the function returns a pair, the last thing that happened is the success
  line of the method started last, and no success line stands before it. When it
  returns \<^verbatim>\<open>(None, None)\<close>, all five methods were started and none succeeded; and
  it returns \<^verbatim>\<open>(None, None)\<close> exactly when no method succeeded.
\<close>

theorem try_authentication_fallback_order:
  "try_authentication env =
     spec_fallback_chain env
       [ADC, ServiceAccount ''service-account.json'', ServiceAccount ''credentials.json'',
        ServiceAccount (user_home env @ ''/.config/gcloud/service-account.json''), GcloudLogin]
       [Print Attempting]
   \<and> prefix (started (snd (try_authentication env)))
     [ADC, ServiceAccount ''service-account.json'', ServiceAccount ''credentials.json'',
      ServiceAccount (user_home env @ ''/.config/gcloud/service-account.json''), GcloudLogin]
   \<and> started (snd (try_authentication env)) \<noteq> []
   \<and> distinct (started (snd (try_authentication env)))
   \<and> requested (snd (try_authentication env)) = ready (snd (try_authentication env))
   \<and> distinct (requested (snd (try_authentication env)))
   \<and> length (filter is_build (snd (try_authentication env))) \<le> length (requested (snd (try_authentication env)))
   \<and> length (filter is_call (snd (try_authentication env))) \<le> length (filter is_build (snd (try_authentication env)))
   \<and> (\<forall>cs. fst (try_authentication env) = Some cs \<longrightarrow>
         last (snd (try_authentication env)) = Print (Working (last (started (snd (try_authentication env)))))
         \<and> \<not> list_ex is_working (butlast (snd (try_authentication env))))
   \<and> (fst (try_authentication env) = None \<longrightarrow>
         started (snd (try_authentication env)) =
           [ADC, ServiceAccount ''service-account.json'', ServiceAccount ''credentials.json'',
            ServiceAccount (user_home env @ ''/.config/gcloud/service-account.json''), GcloudLogin])
   \<and> ((fst (try_authentication env) = None) = (\<not> list_ex is_working (snd (try_authentication env))))"
proof -
  let ?doc = "[ADC, ServiceAccount ''service-account.json'', ServiceAccount ''credentials.json'',
      ServiceAccount (user_home env @ ''/.config/gcloud/service-account.json''), GcloudLogin]"
  let ?tr = "snd (try_authentication env)"
  have doc: "documented_order env = ?doc"
    by (simp add: documented_order_def service_account_paths_def)
  have chain: "try_authentication env = spec_fallback_chain env ?doc [Print Attempting]"
    by (rule try_authentication_spec)
  from spec_fallback_chain_counts[of env ?doc "[Print Attempting]"] obtain new' where
    "?tr = [Print Attempting] @ new'" "requested new' = ready new'"
    "length (filter is_build new') \<le> length (requested new')"
    "length (filter is_call new') \<le> length (filter is_build new')"
    unfolding chain[symmetric] by blast
  then have counts: "requested ?tr = ready ?tr"
    "length (filter is_build ?tr) \<le> length (requested ?tr)"
    "length (filter is_call ?tr) \<le> length (filter is_build ?tr)"
    by simp_all
  from try_authentication_first_success[of env] obtain new where new:
    "?tr = Print Attempting # new"
    "first_success ?doc (fst (try_authentication env)) new"
    unfolding doc by blast
  have st: "started ?tr = started new"
    by (simp add: new(1))
  have dist: "distinct ?doc"
    using documented_order_distinct[of env] unfolding doc .
  have pre: "prefix (started ?tr) ?doc" and ne: "started ?tr \<noteq> []"
    using new(2) unfolding st by (auto simp: first_success_def split: option.splits)
  from pre dist have d: "distinct (started ?tr)"
    by (metis distinct_append prefix_def)
  then have dr: "distinct (requested ?tr)"
    unfolding counts(1) by (rule ready_distinct)
  have some: "last ?tr = Print (Working (last (started ?tr))) \<and> \<not> list_ex is_working (butlast ?tr)"
    and w: "list_ex is_working ?tr"
    if "fst (try_authentication env) = Some cs" for cs
  proof -
    from that new(2) have f: "new \<noteq> []"
      "last new = Print (Working (last (started new)))" "\<not> list_ex is_working (butlast new)"
      by (simp_all add: first_success_def)
    from f(1) have bl: "butlast (Print Attempting # new) = Print Attempting # butlast new" by simp
    from f show "last ?tr = Print (Working (last (started ?tr))) \<and> \<not> list_ex is_working (butlast ?tr)"
      unfolding st new(1) bl by simp
    from f(1,2) have "list_ex is_working new"
      by (metis is_working.simps(1) last_in_set list_ex_iff)
    then show "list_ex is_working ?tr" unfolding new(1) by simp
  qed
  have none: "started ?tr = ?doc \<and> \<not> list_ex is_working ?tr"
    if "fst (try_authentication env) = None"
    using that new(2) unfolding st new(1) by (simp add: first_success_def)
  have iff: "(fst (try_authentication env) = None) = (\<not> list_ex is_working ?tr)"
    using none w by (cases "fst (try_authentication env)") auto
  from chain pre ne d counts dr some none iff show ?thesis by blast
qed

theorem try_authentication_fallback_order_witness:
  "fst (try_authentication example_quick_env) = Some (fresh_creds, Service fresh_creds)
   \<and> started (snd (try_authentication example_quick_env)) =
       [ADC, ServiceAccount ''service-account.json'', ServiceAccount ''credentials.json'']
   \<and> last (snd (try_authentication example_quick_env)) = Print (Working (ServiceAccount ''credentials.json''))
   \<and> fst (try_authentication no_credentials_env) = None
   \<and> started (snd (try_authentication no_credentials_env)) =
       [ADC, ServiceAccount ''service-account.json'', ServiceAccount ''credentials.json'',
        ServiceAccount ''/home/admin/.config/gcloud/service-account.json'', GcloudLogin]"
proof -
  have a: "fst (try_authentication example_quick_env) = Some (fresh_creds, Service fresh_creds)"
    and b: "started (snd (try_authentication example_quick_env)) =
       [ADC, ServiceAccount ''service-account.json'', ServiceAccount ''credentials.json'']"
    by (simp_all add: example_quick_run)
  have c: "fst (try_authentication no_credentials_env) = None"
    by (simp add: no_credentials_run)
  have h: "user_home no_credentials_env = ''/home/admin''"
    by (simp add: no_credentials_env_def)
  from try_authentication_fallback_order[of example_quick_env] a
  have "last (snd (try_authentication example_quick_env)) =
          Print (Working (last (started (snd (try_authentication example_quick_env)))))"
    by blast
  with b have l: "last (snd (try_authentication example_quick_env)) = Print (Working (ServiceAccount ''credentials.json''))"
    by simp
  from try_authentication_fallback_order[of no_credentials_env] c
  have "started (snd (try_authentication no_credentials_env)) =
       [ADC, ServiceAccount ''service-account.json'', ServiceAccount ''credentials.json'',
        ServiceAccount (user_home no_credentials_env @ ''/.config/gcloud/service-account.json''), GcloudLogin]"
    by blast
  with h have n: "started (snd (try_authentication no_credentials_env)) =
       [ADC, ServiceAccount ''service-account.json'', ServiceAccount ''credentials.json'',
        ServiceAccount ''/home/admin/.config/gcloud/service-account.json'', GcloudLogin]"
    by simp
  from a b l c n show ?thesis by blast
qed

text \<open>
  C10. When \<^verbatim>\<open>try_authentication\<close> returns a pair of a credential and a service,
  the service is the client built from that credential, and the run ends with the
  \<^verbatim>\<open>domains().list\<close> probe executed with that service, which returned, followed by
  the success line only.
\<close>

theorem returned_service_passed_the_probe:
  assumes "fst (try_authentication env) = Some (c, svc)"
  shows "svc = Service c \<and>
         (\<exists>pre m r. snd (try_authentication env) = pre @ [Call svc DomainsList, Print (Working m)]
            \<and> execute env pre svc DomainsList = Inr r \<and> Build c \<in> set pre)"
proof -
  from try_authentication_first_success[of env] obtain new where
    "snd (try_authentication env) = Print Attempting # new"
    "probed env (fst (try_authentication env)) (Print Attempting # new)"
    by blast
  with assms show ?thesis by (auto simp: probed_def)
qed

theorem returned_service_passed_the_probe_witness:
  "fst (try_authentication example_quick_env) = Some (fresh_creds, Service fresh_creds)
   \<and> (\<exists>pre m r. snd (try_authentication example_quick_env) =
                   pre @ [Call (Service fresh_creds) DomainsList, Print (Working m)]
            \<and> execute example_quick_env pre (Service fresh_creds) DomainsList = Inr r
            \<and> Build fresh_creds \<in> set pre)"
proof -
  have a: "fst (try_authentication example_quick_env) = Some (fresh_creds, Service fresh_creds)"
    by (simp add: example_quick_run)
  from returned_service_passed_the_probe[OF a] a show ?thesis by simp
qed

section \<open>Properties of test\_workspace\_access\<close>

lemma count_domain_lines [simp]: "list_all is_domain_line ls \<Longrightarrow> filter is_count (map Print ls) = []"
proof (induction ls)
  case Nil
  then show ?case by simp
next
  case (Cons l ls)
  then show ?case by (cases l) simp_all
qed

lemma print_domains_shape:
  "\<exists>ls. snd (print_domains ds tr) = tr @ map Print ls \<and> list_all is_domain_line ls"
proof (induction ds arbitrary: tr)
  case Nil
  have "snd (print_domains [] tr) = tr @ map Print [] \<and> list_all is_domain_line []" by simp
  then show ?case by blast
next
  case (Cons d ds)
  show ?case
  proof (cases "d ''domainName''")
    case None
    then have "snd (print_domains (d # ds) tr) = tr @ map Print [] \<and> list_all is_domain_line []" by simp
    then show ?thesis by blast
  next
    case (Some name)
    show ?thesis
    proof (cases "d ''verified''")
      case None
      with Some have "snd (print_domains (d # ds) tr) = tr @ map Print [] \<and> list_all is_domain_line []" by simp
      then show ?thesis by blast
    next
      case (Some verified)
      from Cons.IH[of "tr @ [Print (DomainLine name verified)]"] obtain ls where
        "snd (print_domains ds (tr @ [Print (DomainLine name verified)])) = (tr @ [Print (DomainLine name verified)]) @ map Print ls"
        "list_all is_domain_line ls" by blast
      with Some \<open>d ''domainName'' = Some name\<close>
      have "snd (print_domains (d # ds) tr) = tr @ map Print (DomainLine name verified # ls)
              \<and> list_all is_domain_line (DomainLine name verified # ls)" by simp
      then show ?thesis by blast
    qed
  qed
qed

lemma test_workspace_access_cases:
  "(\<exists>e. rem [Print Testing] svc DomainsList = Inl e \<and>
        test_workspace_access rem svc =
          (False, [Print Testing, Call svc DomainsList, Print (AccessTestFailed e)]))
   \<or> (\<exists>d ls tr2. rem [Print Testing] svc DomainsList = Inr d \<and> list_all is_domain_line ls \<and>
        tr2 = [Print Testing, Call svc DomainsList, Print (FoundDomains (length (entries d)))] @ map Print ls \<and>
        ((\<exists>e. test_workspace_access rem svc = (False, tr2 @ [Print (AccessTestFailed e)]))
         \<or> (\<exists>e. rem tr2 svc (UsersList 10) = Inl e \<and>
               test_workspace_access rem svc =
                 (False, tr2 @ [Call svc (UsersList 10), Print (AccessTestFailed e)]))
         \<or> (\<exists>u tr4. rem tr2 svc (UsersList 10) = Inr u \<and>
               tr4 = tr2 @ [Call svc (UsersList 10), Print (FoundUsers (length (entries u)))] \<and>
               ((\<exists>e. rem tr4 svc (GroupsList 10) = Inl e \<and>
                  test_workspace_access rem svc =
                    (False, tr4 @ [Call svc (GroupsList 10), Print (AccessTestFailed e)]))
                \<or> (\<exists>g. rem tr4 svc (GroupsList 10) = Inr g \<and>
                  test_workspace_access rem svc =
                    (True, tr4 @ [Call svc (GroupsList 10), Print (FoundGroups (length (entries g)))]))))))"
proof (cases "rem [Print Testing] svc DomainsList")
  case (Inl e)
  then show ?thesis by (simp add: test_workspace_access_def access_body_def)
next
  case (Inr d)
  let ?tr1 = "[Print Testing, Call svc DomainsList, Print (FoundDomains (length (entries d)))]"
  from print_domains_shape[of "entries d" ?tr1] obtain ls where ls:
    "snd (print_domains (entries d) ?tr1) = ?tr1 @ map Print ls" "list_all is_domain_line ls" by blast
  let ?tr2 = "?tr1 @ map Print ls"
  obtain pr where pr: "print_domains (entries d) ?tr1 = (pr, ?tr2)"
    using ls(1) by (metis prod.collapse)
  show ?thesis
  proof (cases pr)
    case (Inl e)
    with pr Inr have "test_workspace_access rem svc = (False, ?tr2 @ [Print (AccessTestFailed e)])"
      by (simp add: test_workspace_access_def access_body_def)
    with Inr ls(2) show ?thesis by blast
  next
    case prok: (Inr u0)
    show ?thesis
    proof (cases "rem ?tr2 svc (UsersList 10)")
      case (Inl e)
      with pr prok Inr have "test_workspace_access rem svc =
                 (False, ?tr2 @ [Call svc (UsersList 10), Print (AccessTestFailed e)])"
        by (simp add: test_workspace_access_def access_body_def)
      with Inr ls(2) Inl show ?thesis by blast
    next
      case usr: (Inr u)
      let ?tr4 = "?tr2 @ [Call svc (UsersList 10), Print (FoundUsers (length (entries u)))]"
      show ?thesis
      proof (cases "rem ?tr4 svc (GroupsList 10)")
        case (Inl e)
        with pr prok Inr usr have "test_workspace_access rem svc =
                    (False, ?tr4 @ [Call svc (GroupsList 10), Print (AccessTestFailed e)])"
          by (simp add: test_workspace_access_def access_body_def)
        with Inr ls(2) usr Inl show ?thesis by blast
      next
        case grp: (Inr g)
        with pr prok Inr usr have "test_workspace_access rem svc =
                    (True, ?tr4 @ [Call svc (GroupsList 10), Print (FoundGroups (length (entries g)))])"
          by (simp add: test_workspace_access_def access_body_def)
        with Inr ls(2) usr grp show ?thesis by blast
      qed
    qed
  qed
qed

lemma harmless_prints [simp]: "list_all harmless (map Print ls)"
  by (induction ls) simp_all

lemma outcomes_print_lines [simp]:
  "outcomes rem h (map Print ls @ tr) = outcomes rem (h @ map Print ls) tr"
  by (simp add: outcomes_append)

lemma print_domains_ok:
  "list_all domain_ok ds \<Longrightarrow> print_domains ds tr = (Inr (), tr @ domain_lines ds)"
proof (induction ds arbitrary: tr)
  case Nil
  then show ?case by (simp add: domain_lines_def)
next
  case (Cons d ds)
  then obtain name verified where d: "d ''domainName'' = Some name" "d ''verified'' = Some verified"
    by (auto simp: domain_ok_def)
  from Cons have "list_all domain_ok ds" by simp
  from Cons.IH[OF this, of "tr @ [Print (DomainLine name verified)]"] d
  show ?case by (simp add: domain_lines_def cell_def)
qed

lemma print_domains_bad:
  "\<not> list_all domain_ok ds \<Longrightarrow> \<exists>k new. print_domains ds tr = (Inl (KeyError k), tr @ map Print new)"
proof (induction ds arbitrary: tr)
  case Nil
  then show ?case by simp
next
  case (Cons d ds)
  show ?case
  proof (cases "domain_ok d")
    case False
    then have "print_domains (d # ds) tr = (Inl (KeyError ''domainName''), tr @ map Print [])
             \<or> print_domains (d # ds) tr = (Inl (KeyError ''verified''), tr @ map Print [])"
      by (auto simp: domain_ok_def split: option.splits)
    then show ?thesis by blast
  next
    case True
    then obtain name verified where d: "d ''domainName'' = Some name" "d ''verified'' = Some verified"
      by (auto simp: domain_ok_def)
    from True Cons.prems have "\<not> list_all domain_ok ds" by simp
    from Cons.IH[OF this, of "tr @ [Print (DomainLine name verified)]"] obtain k new where
      "print_domains ds (tr @ [Print (DomainLine name verified)]) =
         (Inl (KeyError k), (tr @ [Print (DomainLine name verified)]) @ map Print new)" by blast
    with d have "print_domains (d # ds) tr = (Inl (KeyError k), tr @ map Print (DomainLine name verified # new))"
      by simp
    then show ?thesis by blast
  qed
qed

lemma access_domains_raise:
  "rem [Print Testing] svc DomainsList = Inl e \<Longrightarrow>
     test_workspace_access rem svc = (False, [Print Testing, Call svc DomainsList, Print (AccessTestFailed e)])"
  by (simp add: test_workspace_access_def access_body_def)

lemma access_users_raise:
  assumes "rem [Print Testing] svc DomainsList = Inr d" and "list_all domain_ok (entries d)"
    and "rem (domains_report svc d) svc (UsersList 10) = Inl e"
  shows "test_workspace_access rem svc =
           (False, domains_report svc d @ [Call svc (UsersList 10), Print (AccessTestFailed e)])"
  using assms print_domains_ok[OF assms(2),
      of "[Print Testing, Call svc DomainsList, Print (FoundDomains (length (entries d)))]"]
  by (simp add: test_workspace_access_def access_body_def domains_report_def)

lemma access_groups_raise:
  assumes "rem [Print Testing] svc DomainsList = Inr d" and "list_all domain_ok (entries d)"
    and "rem (domains_report svc d) svc (UsersList 10) = Inr u"
    and "rem (users_report svc d u) svc (GroupsList 10) = Inl e"
  shows "test_workspace_access rem svc =
           (False, users_report svc d u @ [Call svc (GroupsList 10), Print (AccessTestFailed e)])"
  using assms print_domains_ok[OF assms(2),
      of "[Print Testing, Call svc DomainsList, Print (FoundDomains (length (entries d)))]"]
  by (simp add: test_workspace_access_def access_body_def domains_report_def users_report_def)

lemma access_all_answered:
  assumes "rem [Print Testing] svc DomainsList = Inr d" and "list_all domain_ok (entries d)"
    and "rem (domains_report svc d) svc (UsersList 10) = Inr u"
    and "rem (users_report svc d u) svc (GroupsList 10) = Inr g"
  shows "test_workspace_access rem svc =
           (True, users_report svc d u @ [Call svc (GroupsList 10), Print (FoundGroups (length (entries g)))])"
  using assms print_domains_ok[OF assms(2),
      of "[Print Testing, Call svc DomainsList, Print (FoundDomains (length (entries d)))]"]
  by (simp add: test_workspace_access_def access_body_def domains_report_def users_report_def)

lemma access_bad_domain:
  assumes "rem [Print Testing] svc DomainsList = Inr d" and "\<not> list_all domain_ok (entries d)"
  shows "\<exists>k new. test_workspace_access rem svc =
           (False, [Print Testing, Call svc DomainsList, Print (FoundDomains (length (entries d)))]
                   @ map Print new @ [Print (AccessTestFailed (KeyError k))])"
proof -
  from print_domains_bad[OF assms(2),
      of "[Print Testing, Call svc DomainsList, Print (FoundDomains (length (entries d)))]"]
  obtain k new where "print_domains (entries d)
        [Print Testing, Call svc DomainsList, Print (FoundDomains (length (entries d)))]
      = (Inl (KeyError k),
         [Print Testing, Call svc DomainsList, Print (FoundDomains (length (entries d)))] @ map Print new)"
    by blast
  with assms(1) have "test_workspace_access rem svc =
           (False, [Print Testing, Call svc DomainsList, Print (FoundDomains (length (entries d)))]
                   @ map Print new @ [Print (AccessTestFailed (KeyError k))])"
    by (simp add: test_workspace_access_def access_body_def)
  then show ?thesis by blast
qed

text \<open>
  C7. When the service answers the three list requests and every returned domain has
  the two keys that are printed, the function makes the three requests, prints the
  three counts, each the length of the returned array, and returns \<^verbatim>\<open>True\<close>. When
  the domains, the users or the groups request raises, the function makes no further
  request, prints the exception and returns \<^verbatim>\<open>False\<close>. A domain without one of the
  two keys raises \<^verbatim>\<open>KeyError\<close> inside the \<^verbatim>\<open>try\<close>: the function returns
  \<^verbatim>\<open>False\<close> after the domains request alone. Read off the run (\<open>outcomes\<close> replays
  the trace, every request with what the service answered): when the three list
  requests of the run each returned, the result is \<^verbatim>\<open>True\<close> and the count lines are
  the three lengths, in order; when a request of the run raised, the result is
  \<^verbatim>\<open>False\<close> and the exception is printed last. In every run the function returns
  a truth value, and nothing happens but printing and read-only list requests.
\<close>

theorem access_test_reports_counts:
  "(\<forall>d u g. rem [Print Testing] svc DomainsList = Inr d \<and> list_all domain_ok (entries d)
        \<and> rem (domains_report svc d) svc (UsersList 10) = Inr u
        \<and> rem (users_report svc d u) svc (GroupsList 10) = Inr g \<longrightarrow>
      test_workspace_access rem svc =
        (True, [Print Testing, Call svc DomainsList, Print (FoundDomains (length (entries d)))]
               @ domain_lines (entries d)
               @ [Call svc (UsersList 10), Print (FoundUsers (length (entries u))),
                  Call svc (GroupsList 10), Print (FoundGroups (length (entries g)))]))
   \<and> (\<forall>e. rem [Print Testing] svc DomainsList = Inl e \<longrightarrow>
      test_workspace_access rem svc =
        (False, [Print Testing, Call svc DomainsList, Print (AccessTestFailed e)]))
   \<and> (\<forall>d e. rem [Print Testing] svc DomainsList = Inr d \<and> list_all domain_ok (entries d)
        \<and> rem (domains_report svc d) svc (UsersList 10) = Inl e \<longrightarrow>
      test_workspace_access rem svc =
        (False, domains_report svc d @ [Call svc (UsersList 10), Print (AccessTestFailed e)]))
   \<and> (\<forall>d u e. rem [Print Testing] svc DomainsList = Inr d \<and> list_all domain_ok (entries d)
        \<and> rem (domains_report svc d) svc (UsersList 10) = Inr u
        \<and> rem (users_report svc d u) svc (GroupsList 10) = Inl e \<longrightarrow>
      test_workspace_access rem svc =
        (False, users_report svc d u @ [Call svc (GroupsList 10), Print (AccessTestFailed e)]))
   \<and> (\<forall>d. rem [Print Testing] svc DomainsList = Inr d \<and> \<not> list_all domain_ok (entries d) \<longrightarrow>
      \<not> fst (test_workspace_access rem svc)
      \<and> map fst (outcomes rem [] (snd (test_workspace_access rem svc))) = [DomainsList]
      \<and> (\<exists>k. last (snd (test_workspace_access rem svc)) = Print (AccessTestFailed (KeyError k))))
   \<and> (\<forall>d u g. outcomes rem [] (snd (test_workspace_access rem svc))
                  = [(DomainsList, Inr d), (UsersList 10, Inr u), (GroupsList 10, Inr g)] \<longrightarrow>
         fst (test_workspace_access rem svc)
         \<and> filter is_count (snd (test_workspace_access rem svc)) =
             [Print (FoundDomains (length (entries d))), Print (FoundUsers (length (entries u))),
              Print (FoundGroups (length (entries g)))])
   \<and> (\<forall>c e. (c, Inl e) \<in> set (outcomes rem [] (snd (test_workspace_access rem svc))) \<longrightarrow>
         \<not> fst (test_workspace_access rem svc)
         \<and> last (snd (test_workspace_access rem svc)) = Print (AccessTestFailed e))
   \<and> list_all harmless (snd (test_workspace_access rem svc))"
proof -
  obtain ok tr where r: "test_workspace_access rem svc = (ok, tr)"
    by (cases "test_workspace_access rem svc")
  note run = test_workspace_access_cases[of rem svc, unfolded r]
  have answered: "test_workspace_access rem svc =
        (True, [Print Testing, Call svc DomainsList, Print (FoundDomains (length (entries d)))]
               @ domain_lines (entries d)
               @ [Call svc (UsersList 10), Print (FoundUsers (length (entries u))),
                  Call svc (GroupsList 10), Print (FoundGroups (length (entries g)))])"
    if "rem [Print Testing] svc DomainsList = Inr d" "list_all domain_ok (entries d)"
       "rem (domains_report svc d) svc (UsersList 10) = Inr u"
       "rem (users_report svc d u) svc (GroupsList 10) = Inr g" for d u g
    using access_all_answered[of rem svc d u g, OF that]
    by (simp add: users_report_def domains_report_def)
  have bad: "\<not> fst (test_workspace_access rem svc)
      \<and> map fst (outcomes rem [] (snd (test_workspace_access rem svc))) = [DomainsList]
      \<and> (\<exists>k. last (snd (test_workspace_access rem svc)) = Print (AccessTestFailed (KeyError k)))"
    if "rem [Print Testing] svc DomainsList = Inr d" "\<not> list_all domain_ok (entries d)" for d
  proof -
    from access_bad_domain[of rem svc d, OF that] obtain k new where
      "test_workspace_access rem svc =
           (False, [Print Testing, Call svc DomainsList, Print (FoundDomains (length (entries d)))]
                   @ map Print new @ [Print (AccessTestFailed (KeyError k))])" by blast
    then show ?thesis by simp
  qed
  have counts: "ok \<and> filter is_count tr =
                   [Print (FoundDomains (length (entries d))), Print (FoundUsers (length (entries u))),
                    Print (FoundGroups (length (entries g)))]"
    if "outcomes rem [] tr = [(DomainsList, Inr d), (UsersList 10, Inr u), (GroupsList 10, Inr g)]" for d u g
    using run that by (elim disjE exE conjE; clarsimp)
  have caught: "\<not> ok \<and> last tr = Print (AccessTestFailed e)"
    if "(c, Inl e) \<in> set (outcomes rem [] tr)" for c e
    using run that by (elim disjE exE conjE; clarsimp)
  have reads: "list_all harmless tr"
    using run by (elim disjE exE conjE; clarsimp)
  from answered access_domains_raise[of rem svc] access_users_raise[of rem svc]
    access_groups_raise[of rem svc] bad counts caught reads
  show ?thesis unfolding r fst_conv snd_conv by blast
qed

theorem access_test_reports_counts_witness:
  "example_directory [Print Testing] example_service DomainsList = Inr (Some [example_domain])
   \<and> list_all domain_ok (entries (Some [example_domain]))
   \<and> example_directory (domains_report example_service (Some [example_domain])) example_service (UsersList 10)
        = Inr (Some [Map.empty, Map.empty])
   \<and> example_directory (users_report example_service (Some [example_domain]) (Some [Map.empty, Map.empty]))
        example_service (GroupsList 10) = Inr None
   \<and> test_workspace_access example_directory example_service =
     (True, [Print Testing, Call example_service DomainsList, Print (FoundDomains 1),
             Print (DomainLine (VStr ''aribia.example'') (VBool True)),
             Call example_service (UsersList 10), Print (FoundUsers 2),
             Call example_service (GroupsList 10), Print (FoundGroups 0)])
   \<and> users_forbidden (domains_report example_service (Some [example_domain])) example_service (UsersList 10)
        = Inl (LibraryError ''HttpError 403'')
   \<and> test_workspace_access users_forbidden example_service =
     (False, [Print Testing, Call example_service DomainsList, Print (FoundDomains 1),
             Print (DomainLine (VStr ''aribia.example'') (VBool True)),
             Call example_service (UsersList 10),
             Print (AccessTestFailed (LibraryError ''HttpError 403''))])"
proof -
  let ?d = "Some [example_domain]"
  let ?u = "Some [Map.empty, Map.empty] :: response"
  have h: "example_directory [Print Testing] example_service DomainsList = Inr ?d"
    "list_all domain_ok (entries ?d)"
    "example_directory (domains_report example_service ?d) example_service (UsersList 10) = Inr ?u"
    "example_directory (users_report example_service ?d ?u) example_service (GroupsList 10) = Inr None"
    by (simp_all add: example_directory_def entries_def domain_ok_def example_domain_def)
  have h2: "users_forbidden [Print Testing] example_service DomainsList = Inr ?d"
    "users_forbidden (domains_report example_service ?d) example_service (UsersList 10)
        = Inl (LibraryError ''HttpError 403'')"
    by (simp_all add: users_forbidden_def)
  have lines: "domain_lines (entries ?d) = [Print (DomainLine (VStr ''aribia.example'') (VBool True))]"
    by (simp add: domain_lines_def entries_def cell_def example_domain_def)
  from access_test_reports_counts[of example_directory example_service] h
  have "test_workspace_access example_directory example_service =
        (True, [Print Testing, Call example_service DomainsList, Print (FoundDomains (length (entries ?d)))]
               @ domain_lines (entries ?d)
               @ [Call example_service (UsersList 10), Print (FoundUsers (length (entries ?u))),
                  Call example_service (GroupsList 10), Print (FoundGroups (length (entries None)))])"
    by blast
  then have run: "test_workspace_access example_directory example_service =
     (True, [Print Testing, Call example_service DomainsList, Print (FoundDomains 1),
             Print (DomainLine (VStr ''aribia.example'') (VBool True)),
             Call example_service (UsersList 10), Print (FoundUsers 2),
             Call example_service (GroupsList 10), Print (FoundGroups 0)])"
    unfolding lines by (simp add: entries_def)
  from access_test_reports_counts[of users_forbidden example_service] h2 h(2)
  have "test_workspace_access users_forbidden example_service =
        (False, domains_report example_service ?d
                @ [Call example_service (UsersList 10), Print (AccessTestFailed (LibraryError ''HttpError 403''))])"
    by blast
  then have run2: "test_workspace_access users_forbidden example_service =
     (False, [Print Testing, Call example_service DomainsList, Print (FoundDomains 1),
             Print (DomainLine (VStr ''aribia.example'') (VBool True)),
             Call example_service (UsersList 10),
             Print (AccessTestFailed (LibraryError ''HttpError 403''))])"
    unfolding domains_report_def lines by (simp add: entries_def)
  from h h2(2) run run2 show ?thesis by blast
qed

end
